theory Spec2Isabelle
  imports Main "HOL-Library.AList" "HOL-Library.Word"
begin

section \<open>Results of Go calls\<close>

text \<open>
  A Go call either returns (possibly with a non-nil \<open>error\<close> among its results) or panics
  at run time (a slice index out of range, a reflect call on the wrong kind).  A panic is not
  an error value, so the two are kept apart: a function that returns \<open>(T, error)\<close> has
  the result type \<open>(error + T) outcome\<close>.  The kinds are those of \<open>reflect.Kind\<close>, with the
  numeric kinds taken together as \<open>KInt\<close>.
\<close>

datatype kind =
    KInvalid | KBool | KInt | KString | KPtr | KInterface | KSlice | KArray | KMap | KChan | KFunc | KStruct

datatype panic =
    SliceOutOfRange           \<comment> \<open>slice bounds out of range\<close>
  | IsNilOfNonNilable kind    \<comment> \<open>reflect: call of reflect.Value.IsNil on a value of that kind\<close>
  | TypeOfZeroValue           \<comment> \<open>reflect: call of reflect.Value.Type on zero Value\<close>
  | NumFieldOfNonStruct kind  \<comment> \<open>reflect: NumField of non-struct type\<close>
  | FieldIndexOutOfRange      \<comment> \<open>reflect: Field index out of range\<close>
  | InterfaceOfUnexported     \<comment> \<open>reflect.Value.Interface: cannot return value obtained from unexported field\<close>
  | InterfaceOfZeroValue      \<comment> \<open>reflect: call of reflect.Value.Interface on zero Value\<close>
  | NilDereference            \<comment> \<open>invalid memory address or nil pointer dereference\<close>

datatype 'a outcome = Returns 'a | Panics panic


section \<open>Dotted strings (render/preprocessor/preprocessor.go)\<close>

text \<open>
  \<open>strings.Split(in, ".")\<close>: the segments between the dots.  The empty string has one
  (empty) segment, so the result is never empty.
\<close>

fun SplitTerms :: "string \<Rightarrow> string list" where
  "SplitTerms [] = [[]]"
| "SplitTerms (c # cs) =
     (if c = CHR ''.'' then [] # SplitTerms cs
      else (case SplitTerms cs of [] \<Rightarrow> [[c]] | t # ts \<Rightarrow> (c # t) # ts))"

text \<open>\<open>strings.Join(s, sep)\<close>.\<close>

fun go_join :: "string \<Rightarrow> string list \<Rightarrow> string" where
  "go_join sep [] = []"
| "go_join sep [t] = t"
| "go_join sep (t # ts) = t @ sep @ go_join sep ts"

definition JoinTerms :: "string list \<Rightarrow> string" where
  "JoinTerms s = go_join ''.'' s"

text \<open>
  \<open>Inits\<close>: the loop runs \<open>i\<close> from \<open>0\<close> to \<open>len(in) - 1\<close> and puts \<open>in[0 : i+1]\<close> in front
  of the results collected so far.
\<close>

definition Inits :: "'a list \<Rightarrow> 'a list list" where
  "Inits xs = fold (\<lambda>i results. take (i + 1) xs # results) [0 ..< length xs] []"

definition Prefixes :: "string \<Rightarrow> string list" where
  "Prefixes s = map JoinTerms (Inits (SplitTerms s))"

text \<open>\<open>Find\<close>: the first element for which \<open>f\<close> holds, or the empty string and \<open>false\<close>.\<close>

fun Find :: "string list \<Rightarrow> (string \<Rightarrow> bool) \<Rightarrow> string \<times> bool" where
  "Find [] f = ([], False)"
| "Find (e # es) f = (if f e then (e, True) else Find es f)"

definition MkCallPipeline :: "string \<Rightarrow> string" where
  "MkCallPipeline s = go_join '' | '' (SplitTerms s)"

text \<open>The slice expression \<open>s[n:]\<close>, which panics when \<open>n\<close> exceeds the length.\<close>

definition slice_from :: "string \<Rightarrow> nat \<Rightarrow> string outcome" where
  "slice_from s n = (if n \<le> length s then Returns (drop n s) else Panics SliceOutOfRange)"

section \<open>The graph\<close>

text \<open>
  Modelled from the spec: the package \<open>graph\<close> is not among the sources.  A graph is a mapping
  from vertex id to the vertex's meta, which holds the vertex value and the outgoing
  dependency edges; lookups on a missing id return absent.  Of the vertex value only what
  \<open>TraverseUntilModule\<close> inspects is kept: whether it is a \<open>*module.Module\<close>, a
  \<open>*module.Preparer\<close>, a \<open>*parse.Node\<close> (with its kind) or anything else.
\<close>

datatype vertex_value =
    ModuleTask
  | ModulePreparer
  | ParseNode string
  | OtherValue

record meta =
  mvalue :: vertex_value
  medges :: "string list"

type_synonym graph = "string \<Rightarrow> meta option"

definition Get :: "graph \<Rightarrow> string \<Rightarrow> meta option" where
  "Get g v = g v"

definition Contains :: "graph \<Rightarrow> string \<Rightarrow> bool" where
  "Contains g v = (g v \<noteq> None)"

definition Children :: "graph \<Rightarrow> string \<Rightarrow> string list" where
  "Children g v = (case g v of None \<Rightarrow> [] | Some m \<Rightarrow> medges m)"

text \<open>
  Modelled from the spec: \<open>ParentID\<close> drops the last segment, \<open>SiblingID(base, leaf)\<close> is
  \<open>ParentID(base) + "." + leaf\<close>, and \<open>IsRoot\<close> holds of the id \<open>root\<close> only.
\<close>

definition ParentID :: "string \<Rightarrow> string" where
  "ParentID v = JoinTerms (butlast (SplitTerms v))"

definition SiblingID :: "string \<Rightarrow> string \<Rightarrow> string" where
  "SiblingID base leaf = ParentID base @ ''.'' @ leaf"

definition IsRoot :: "string \<Rightarrow> bool" where
  "IsRoot v = (v = ''root'')"

section \<open>Longest-prefix resolution\<close>

definition VertexSplit :: "graph \<Rightarrow> string \<Rightarrow> (string \<times> string \<times> bool) outcome" where
  "VertexSplit g s =
     (case Find (Prefixes s) (Contains g) of
        (prefix, found) \<Rightarrow>
          if \<not> found then Returns ([], s, False)
          else if prefix = s then Returns (prefix, [], True)
          else (case slice_from s (length prefix + 1) of
                  Returns rest \<Rightarrow> Returns (prefix, rest, True)
                | Panics p \<Rightarrow> Panics p))"

text \<open>
  The spec's notion of a dotted prefix, in its own words: \<open>q\<close> is a dotted prefix of \<open>s\<close> when it
  is \<open>s\<close> itself or is followed in \<open>s\<close> by a separating dot and a remainder.
\<close>

definition dotted_prefix :: "string \<Rightarrow> string \<Rightarrow> bool" where
  "dotted_prefix q s = (q = s \<or> (\<exists>r. s = q @ ''.'' @ r))"

text \<open>A graph given by the list of its vertices, each with its value and its edges.\<close>

definition graph_of :: "(string \<times> vertex_value \<times> string list) list \<Rightarrow> graph" where
  "graph_of vs = map_of (map (\<lambda>(v, x, es). (v, \<lparr>mvalue = x, medges = es\<rparr>)) vs)"

text \<open>The graph of the spec's longest-prefix scenario: vertices \<open>a\<close>, \<open>a.b\<close> and \<open>a.b.c\<close>.\<close>

definition abc_graph :: graph where
  "abc_graph =
     graph_of [(''a'', OtherValue, []), (''a.b'', OtherValue, []), (''a.b.c'', OtherValue, [])]"

section \<open>Scope-aware resolution\<close>

text \<open>
  \<open>TraverseUntilModule\<close>: stop at the root, at a missing vertex and at a module, which is a
  \<open>*module.Module\<close>, a \<open>*module.Preparer\<close> or a \<open>*parse.Node\<close> of kind \<open>module\<close>.
\<close>

definition TraverseUntilModule :: "graph \<Rightarrow> string \<Rightarrow> bool" where
  "TraverseUntilModule g v =
     (if IsRoot v then True
      else (case Get g v of
              None \<Rightarrow> True
            | Some elemMeta \<Rightarrow>
                (case mvalue elemMeta of
                   ModuleTask \<Rightarrow> True
                 | ModulePreparer \<Rightarrow> True
                 | ParseNode kind \<Rightarrow> kind = ''module''
                 | OtherValue \<Rightarrow> False)))"

text \<open>
  \<open>VertexSplitTraverse\<close> recurses into children and then into the parent, and nothing in the
  code bounds the recursion (with a \<open>stop\<close> that is never true it climbs from the empty id to
  the empty id for ever).  The model therefore counts the depth of the call stack: with no
  fuel left the call has not returned, which is the value \<open>None\<close>.

  The \<open>history\<close> map is shared by all the calls, so every call returns the history it leaves
  behind.  The loop over the children is \<open>traverse_children\<close>; \<open>rec\<close> is the recursive call.
  Its result \<open>None\<close> in the first component says that the children are exhausted without a
  match.
\<close>

type_synonym history = "string set"

type_synonym split = "string \<times> string \<times> bool"

fun traverse_children ::
  "(string \<Rightarrow> history \<Rightarrow> (split \<times> history) outcome option) \<Rightarrow> (string \<Rightarrow> bool) \<Rightarrow>
   string list \<Rightarrow> history \<Rightarrow> (split option \<times> history) outcome option" where
  "traverse_children rec stop [] h = Some (Returns (None, h))"
| "traverse_children rec stop (child # cs) h =
     (if child \<in> h then traverse_children rec stop cs h
      else if stop child then traverse_children rec stop cs h
      else (case rec child h of
              None \<Rightarrow> None
            | Some (Panics p) \<Rightarrow> Some (Panics p)
            | Some (Returns ((vertex, middle, found), h')) \<Rightarrow>
                if found then Some (Returns (Some (vertex, middle, found), h'))
                else traverse_children rec stop cs h'))"

fun VertexSplitTraverse ::
  "nat \<Rightarrow> graph \<Rightarrow> string \<Rightarrow> string \<Rightarrow> (graph \<Rightarrow> string \<Rightarrow> bool) \<Rightarrow> history \<Rightarrow>
   (split \<times> history) outcome option" where
  "VertexSplitTraverse 0 g toFind startingNode stop history = None"
| "VertexSplitTraverse (Suc fuel) g toFind startingNode stop history =
     (case traverse_children (\<lambda>child h. VertexSplitTraverse fuel g toFind child stop h)
             (stop g) (Children g startingNode) (insert startingNode history) of
        None \<Rightarrow> None
      | Some (Panics p) \<Rightarrow> Some (Panics p)
      | Some (Returns (Some res, h)) \<Rightarrow> Some (Returns (res, h))
      | Some (Returns (None, h)) \<Rightarrow>
          if stop g startingNode then Some (Returns (([], toFind, False), h))
          else (case VertexSplit g (SiblingID startingNode toFind) of
                  Panics p \<Rightarrow> Some (Panics p)
                | Returns (vertex, middle, found) \<Rightarrow>
                    if found then Some (Returns ((vertex, middle, found), h))
                    else VertexSplitTraverse fuel g toFind (ParentID startingNode) stop h))"

text \<open>
  The vertices of the spec's lexical-scope scenario: two modules and a file in each.  The
  edges are left open: \<open>scope_graph e1 ex e2 ey\<close> gives the four vertices the edge lists
  \<open>e1\<close>, \<open>ex\<close>, \<open>e2\<close> and \<open>ey\<close>.
\<close>

definition scope_graph :: "string list \<Rightarrow> string list \<Rightarrow> string list \<Rightarrow> string list \<Rightarrow> graph" where
  "scope_graph e1 ex e2 ey =
     graph_of [(''root.m1.module'', ParseNode ''module'', e1),
               (''root.m1.file.x'', ParseNode ''file'', ex),
               (''root.m2.module'', ParseNode ''module'', e2),
               (''root.m2.file.y'', ParseNode ''file'', ey)]"

section \<open>Desugaring a call\<close>

datatype desugar_error = NonExistantDependency

text \<open>
  \<open>DesugarCall\<close> writes \<open>fmt.Sprintf("(noderef %q)", pfx)\<close> and, when the remainder is not
  empty, \<open>fmt.Sprintf("| %s", MkCallPipeline(rest))\<close> into a buffer.  The verb \<open>%q\<close> is the
  standard library's \<open>strconv.Quote\<close>, which is no code of this repository: it is the
  parameter \<open>quote\<close>.  What is used of it is \<open>quotes_plain\<close>: a string made of printable ASCII
  characters other than the double quote and the backslash (all that a vertex id is made of)
  is put between double quotes unchanged.
\<close>

definition DesugarCall :: "(string \<Rightarrow> string) \<Rightarrow> graph \<Rightarrow> string \<Rightarrow> (desugar_error + string) outcome" where
  "DesugarCall quote g call =
     (case VertexSplit g call of
        Panics p \<Rightarrow> Panics p
      | Returns (pfx, rest, found) \<Rightarrow>
          if \<not> found then Returns (Inl NonExistantDependency)
          else
            let out = [];
                out = out @ (''(noderef '' @ quote pfx @ '')'');
                out = (if rest \<noteq> [] then out @ (''| '' @ MkCallPipeline rest) else out)
            in Returns (Inr out))"

definition plain_char :: "char \<Rightarrow> bool" where
  "plain_char c =
     (32 \<le> (of_char c :: nat) \<and> (of_char c :: nat) < 127 \<and> c \<noteq> CHR 0x22 \<and> c \<noteq> CHR 0x5C)"

definition plain_string :: "string \<Rightarrow> bool" where
  "plain_string p = list_all plain_char p"

definition quotes_plain :: "(string \<Rightarrow> string) \<Rightarrow> bool" where
  "quotes_plain quote = (\<forall>p. plain_string p \<longrightarrow> quote p = CHR 0x22 # p @ [CHR 0x22])"

text \<open>A quoting function that is \<open>%q\<close> on plain strings, for the examples.\<close>

definition plain_quote :: "string \<Rightarrow> string" where
  "plain_quote p = CHR 0x22 # p @ [CHR 0x22]"

text \<open>The graph of the spec's desugaring scenario.\<close>

definition godl_graph :: graph where
  "godl_graph = graph_of [(''task.go-dl'', ParseNode ''task'', [])]"

section \<open>Values and types as reflection sees them\<close>

text \<open>
  The introspector works on Go values through the package \<open>reflect\<close>.  A value is modelled by
  what \<open>reflect\<close> shows of it: its kind, whether it is nil, what a pointer or an interface
  holds, and the fields of a struct.  A field has a name, is embedded (\<open>Anonymous\<close>) or not,
  and is exported or not; a value reached through a field that is not exported may not be
  turned into an \<open>interface{}\<close>, \<open>Value.Interface\<close> panics on it.

  Values are finite trees, so a value that reaches itself through a pointer, on which the
  recursion of \<open>FieldMap\<close> would not end, is not a value of the model.
\<close>

datatype 'v field =
  StructField (fname: string) (anonymous: bool) (exported: bool) (fvalue: 'v)

datatype nil_kind = NilPtr | NilInterface | NilSlice | NilMap | NilChan | NilFunc

datatype opaque_kind = OpaqueSlice | OpaqueArray | OpaqueMap | OpaqueChan | OpaqueFunc

datatype gval =
    VInvalid                  \<comment> \<open>the zero \<open>reflect.Value\<close>, which \<open>reflect.ValueOf(nil)\<close> returns\<close>
  | VBool bool
  | VInt int
  | VString string
  | VNil nil_kind             \<comment> \<open>the nil pointer, interface, slice, map, channel or function\<close>
  | VPtr gval                 \<comment> \<open>a pointer that is not nil, with what it points to\<close>
  | VIface gval               \<comment> \<open>an interface that is not nil, with the value it holds\<close>
  | VOpaque opaque_kind       \<comment> \<open>a slice, map, channel or function that is not nil, or an array\<close>
  | VStruct "gval field list"

fun nil_Kind :: "nil_kind \<Rightarrow> kind" where
  "nil_Kind NilPtr = KPtr"
| "nil_Kind NilInterface = KInterface"
| "nil_Kind NilSlice = KSlice"
| "nil_Kind NilMap = KMap"
| "nil_Kind NilChan = KChan"
| "nil_Kind NilFunc = KFunc"

fun opaque_Kind :: "opaque_kind \<Rightarrow> kind" where
  "opaque_Kind OpaqueSlice = KSlice"
| "opaque_Kind OpaqueArray = KArray"
| "opaque_Kind OpaqueMap = KMap"
| "opaque_Kind OpaqueChan = KChan"
| "opaque_Kind OpaqueFunc = KFunc"

fun Kind :: "gval \<Rightarrow> kind" where
  "Kind VInvalid = KInvalid"
| "Kind (VBool b) = KBool"
| "Kind (VInt i) = KInt"
| "Kind (VString s) = KString"
| "Kind (VNil k) = nil_Kind k"
| "Kind (VPtr v) = KPtr"
| "Kind (VIface v) = KInterface"
| "Kind (VOpaque k) = opaque_Kind k"
| "Kind (VStruct fs) = KStruct"

text \<open>
  \<open>Value.IsNil\<close> panics unless the kind is one of channel, function, interface, map, pointer
  and slice.
\<close>

definition IsNil :: "gval \<Rightarrow> bool outcome" where
  "IsNil v =
     (if Kind v \<in> {KChan, KFunc, KInterface, KMap, KPtr, KSlice}
      then Returns (case v of VNil k \<Rightarrow> True | _ \<Rightarrow> False)
      else Panics (IsNilOfNonNilable (Kind v)))"

definition canBeNil :: "gval \<Rightarrow> bool" where
  "canBeNil r =
     (case Kind r of
        KPtr \<Rightarrow> True | KInterface \<Rightarrow> True
      | KSlice \<Rightarrow> True | KArray \<Rightarrow> True | KMap \<Rightarrow> True
      | KChan \<Rightarrow> True | KFunc \<Rightarrow> True
      | _ \<Rightarrow> False)"

text \<open>\<open>canBeNil(r) && r.IsNil()\<close>: the second operand is evaluated only when the first holds.\<close>

definition nil_check :: "gval \<Rightarrow> bool outcome" where
  "nil_check r = (if canBeNil r then IsNil r else Returns False)"

text \<open>
  \<open>indirectStruct\<close>: a pointer that is not nil, or an interface.  The kind is tested first, so
  \<open>IsNil\<close> does not panic here.
\<close>

definition indirectStruct :: "gval \<Rightarrow> bool" where
  "indirectStruct v = ((Kind v = KPtr \<and> IsNil v = Returns False) \<or> Kind v = KInterface)"

text \<open>
  \<open>Value.Elem\<close> of a pointer or an interface: what it points to or holds, and the zero value
  when the interface is nil.  (On a value of another kind \<open>Elem\<close> panics; \<open>FieldMap\<close> calls it
  only where \<open>indirectStruct\<close> holds.)
\<close>

definition Elem :: "gval \<Rightarrow> gval" where
  "Elem v = (case v of VPtr x \<Rightarrow> x | VIface x \<Rightarrow> x | _ \<Rightarrow> VInvalid)"

text \<open>
  The loop \<open>for { if !indirectStruct(val) { break }; val = val.Elem() }\<close>, as a recursion on
  the value; that it is this loop is the lemma \<open>indirect_loop\<close>.
\<close>

fun indirect :: "gval \<Rightarrow> gval" where
  "indirect (VPtr v) = indirect v"
| "indirect (VIface v) = indirect v"
| "indirect (VNil k) = (if k = NilInterface then VInvalid else VNil k)"
| "indirect v = v"

text \<open>
  A \<open>reflect.Value\<close> taken from a struct with \<open>Field\<close>: the value, and whether it may be read
  (it may not when the field is not exported).
\<close>

type_synonym rvalue = "gval \<times> bool"

text \<open>
  \<open>Value.Interface\<close> followed by \<open>reflect.ValueOf\<close>, which is how every value enters
  \<open>FieldMap\<close>: the value held by an interface takes the interface's place, and a nil
  interface becomes the zero value.
\<close>

definition Interface_of :: "rvalue \<Rightarrow> gval outcome" where
  "Interface_of r =
     (case r of (v, readable) \<Rightarrow>
        if v = VInvalid then Panics InterfaceOfZeroValue
        else if \<not> readable then Panics InterfaceOfUnexported
        else (case v of
                VIface x \<Rightarrow> Returns x
              | VNil k \<Rightarrow> Returns (if k = NilInterface then VInvalid else VNil k)
              | _ \<Rightarrow> Returns v))"

text \<open>\<open>val.Type().NumField()\<close> and \<open>val.Field(idx)\<close>.\<close>

definition struct_fields :: "gval \<Rightarrow> gval field list outcome" where
  "struct_fields val =
     (case val of
        VStruct fs \<Rightarrow> Returns fs
      | VInvalid \<Rightarrow> Panics TypeOfZeroValue
      | _ \<Rightarrow> Panics (NumFieldOfNonStruct (Kind val)))"

definition Field_at :: "gval field list \<Rightarrow> nat \<Rightarrow> rvalue outcome" where
  "Field_at fs idx =
     (if idx < length fs then Returns (fvalue (fs ! idx), exported (fs ! idx))
      else Panics FieldIndexOutOfRange)"

section \<open>FieldMap\<close>

text \<open>
  Go maps with string keys are association lists with distinct keys, written with
  \<open>AList.update\<close> and \<open>AList.delete\<close> and read with \<open>map_of\<close>.  The order of the list has no
  meaning.  Where the code ranges over a map and the order of the visit can be seen in the
  result, the order is a parameter (see \<open>lookupMap\<close>); the two loops of \<open>FieldMap\<close> that
  range over a map treat every key on its own, so any order gives the same map.
\<close>

type_synonym fieldmap = "(string \<times> rvalue) list"

record refs =
  embeddedRefs :: "(string \<times> nat) list"
  unembeddedRefs :: "(string \<times> nat) list"
  results :: fieldmap

text \<open>
  The body of \<open>for k, v := range FieldMap(...)\<close>: count the key, and keep the value unless the
  key is in the results already.
\<close>

definition merge_key :: "string \<times> rvalue \<Rightarrow> refs \<Rightarrow> refs" where
  "merge_key kv st =
     (case kv of (k, v) \<Rightarrow>
        let st = (case map_of (embeddedRefs st) k of
                    Some val \<Rightarrow> st\<lparr>embeddedRefs := AList.update k (val + 1) (embeddedRefs st)\<rparr>
                  | None \<Rightarrow> st\<lparr>embeddedRefs := AList.update k 1 (embeddedRefs st)\<rparr>)
        in (if map_of (results st) k = None
            then st\<lparr>results := AList.update k v (results st)\<rparr> else st))"

text \<open>
  The loop \<open>for ref, count := range embeddedRefs\<close>: a name counted more than once is bound to
  the struct's own field of that name when there is one, and deleted otherwise.
\<close>

fun resolve_refs ::
  "gval field list \<Rightarrow> (string \<times> nat) list \<Rightarrow> (string \<times> nat) list \<Rightarrow> fieldmap \<Rightarrow> fieldmap outcome" where
  "resolve_refs fs unembedded [] res = Returns res"
| "resolve_refs fs unembedded ((ref, count) # others) res =
     (if count \<le> 1 then resolve_refs fs unembedded others res
      else (case map_of unembedded ref of
              Some idx \<Rightarrow>
                (case Field_at fs idx of
                   Panics p \<Rightarrow> Panics p
                 | Returns v \<Rightarrow> resolve_refs fs unembedded others (AList.update ref v res))
            | None \<Rightarrow> resolve_refs fs unembedded others (AList.delete ref res)))"

text \<open>
  \<open>FieldMap\<close>, and its loop over the fields of the struct: \<open>fields_loop\<close> takes the fields
  still to visit, the index \<open>idx\<close> of the first of them and the three maps.  A field that is
  embedded and not nil is flattened by a recursive call of \<open>FieldMap\<close>.
\<close>

function FieldMap :: "gval \<Rightarrow> fieldmap outcome"
  and fields_loop :: "gval field list \<Rightarrow> nat \<Rightarrow> refs \<Rightarrow> refs outcome" where
  "FieldMap obj =
     (case nil_check obj of
        Panics p \<Rightarrow> Panics p
      | Returns True \<Rightarrow> Returns []
      | Returns False \<Rightarrow>
          (case struct_fields (indirect obj) of
             Panics p \<Rightarrow> Panics p
           | Returns fs \<Rightarrow>
               (case fields_loop fs 0 \<lparr>embeddedRefs = [], unembeddedRefs = [], results = []\<rparr> of
                  Panics p \<Rightarrow> Panics p
                | Returns st \<Rightarrow> resolve_refs fs (unembeddedRefs st) (embeddedRefs st) (results st))))"
| "fields_loop [] idx st = Returns st"
| "fields_loop (sfield # rest) idx st =
     (if anonymous sfield then
        (case nil_check (fvalue sfield) of
           Panics p \<Rightarrow> Panics p
         | Returns True \<Rightarrow>
             fields_loop rest (idx + 1)
               (st\<lparr>results := AList.update (fname sfield) (fvalue sfield, exported sfield) (results st)\<rparr>)
         | Returns False \<Rightarrow>
             (case Interface_of (fvalue sfield, exported sfield) of
                Panics p \<Rightarrow> Panics p
              | Returns sub \<Rightarrow>
                  (case FieldMap sub of
                     Panics p \<Rightarrow> Panics p
                   | Returns m \<Rightarrow>
                       fields_loop rest (idx + 1)
                         ((fold merge_key m st)\<lparr>results :=
                            AList.update (fname sfield) (fvalue sfield, exported sfield)
                              (results (fold merge_key m st))\<rparr>))))
      else
        fields_loop rest (idx + 1)
          (st\<lparr>unembeddedRefs := AList.update (fname sfield) idx (unembeddedRefs st),
              results := AList.update (fname sfield) (fvalue sfield, exported sfield) (results st)\<rparr>))"
  by pat_completeness auto

termination
proof (relation "measure (\<lambda>x. case x of Inl obj \<Rightarrow> 2 * size obj + 1
                                        | Inr (fs, idx, st) \<Rightarrow> 2 * size_list (size_field size) fs)")
  have ind: "size (indirect v) \<le> size v" for v
    by (induction v rule: indirect.induct) auto
  have itf: "size sub \<le> size v" if "Interface_of (v, e) = Returns sub" for v e sub
    using that by (cases v) (auto simp: Interface_of_def split: if_splits)
  show "wf (measure (\<lambda>x. case x of Inl obj \<Rightarrow> 2 * size obj + 1
                                  | Inr (fs, idx, st) \<Rightarrow> 2 * size_list (size_field size) fs))"
    by simp
  show "(Inr (fs, 0, \<lparr>embeddedRefs = [], unembeddedRefs = [], results = []\<rparr>), Inl obj)
          \<in> measure (\<lambda>x. case x of Inl obj \<Rightarrow> 2 * size obj + 1
                                   | Inr (fs, idx, st) \<Rightarrow> 2 * size_list (size_field size) fs)"
    if "struct_fields (indirect obj) = Returns fs" for obj fs
  proof -
    from that have "indirect obj = VStruct fs"
      by (cases "indirect obj") (auto simp: struct_fields_def)
    with ind [of obj] show ?thesis by simp
  qed
  show "(Inl sub, Inr (sfield # rest, idx, st))
          \<in> measure (\<lambda>x. case x of Inl obj \<Rightarrow> 2 * size obj + 1
                                   | Inr (fs, idx, st) \<Rightarrow> 2 * size_list (size_field size) fs)"
    if "Interface_of (fvalue sfield, exported sfield) = Returns sub" for sfield rest idx st sub
    using itf [OF that] by (cases sfield) simp
qed simp_all

declare FieldMap.simps [simp del]

text \<open>
  The spec's words for the flattening rules.  A name appears in an embedded record when the
  record is not nil and the name is a key of the record's own field map, which holds the
  record's fields and the names lifted from the records it embeds.
\<close>

definition appears_in :: "string \<Rightarrow> gval field \<Rightarrow> bool" where
  "appears_in k f =
     (anonymous f \<and> nil_check (fvalue f) = Returns False \<and>
      (case Interface_of (fvalue f, exported f) of
         Returns sub \<Rightarrow> (case FieldMap sub of Returns m \<Rightarrow> map_of m k \<noteq> None | Panics p \<Rightarrow> False)
       | Panics p \<Rightarrow> False))"

text \<open>
  A record value declares a name when, pointers and interfaces followed, it is a struct with
  distinctly named fields one of which, not embedded, has the name.
\<close>

definition declares :: "string \<Rightarrow> gval \<Rightarrow> bool" where
  "declares k v =
     (case indirect v of
        VStruct gs \<Rightarrow> distinct (map fname gs) \<and> (\<exists>g \<in> set gs. \<not> anonymous g \<and> fname g = k)
      | _ \<Rightarrow> False)"

text \<open>A reference count read from \<open>embeddedRefs\<close>: zero for a name that has none.\<close>

definition counted :: "(string \<times> nat) list \<Rightarrow> string \<Rightarrow> nat" where
  "counted er k = (case map_of er k of None \<Rightarrow> 0 | Some c \<Rightarrow> c)"

text \<open>
  The records of the spec's flattening scenario: \<open>Outer\<close> with a field \<open>Name\<close> and the embedded
  records \<open>E1\<close> (fields \<open>Shared\<close> and \<open>A\<close>) and \<open>E2\<close> (fields \<open>Shared\<close> and \<open>B\<close>), and
  \<open>Outer\<close> with a field \<open>Shared\<close> of its own added.
\<close>

definition E1_value :: gval where
  "E1_value = VStruct [StructField ''Shared'' False True (VString ''s1''), StructField ''A'' False True (VString ''a'')]"

definition E2_value :: gval where
  "E2_value = VStruct [StructField ''Shared'' False True (VString ''s2''), StructField ''B'' False True (VString ''b'')]"

definition Outer_value :: gval where
  "Outer_value =
     VStruct [StructField ''Name'' False True (VString ''n''),
              StructField ''E1'' True True E1_value,
              StructField ''E2'' True True E2_value]"

definition Outer_shared_value :: gval where
  "Outer_shared_value =
     VStruct [StructField ''Name'' False True (VString ''n''),
              StructField ''E1'' True True E1_value,
              StructField ''E2'' True True E2_value,
              StructField ''Shared'' False True (VString ''outer'')]"

section \<open>Evaluating a path of terms\<close>

text \<open>
  \<open>strings.ToLower\<close> on the letters of ASCII, of which Go's identifiers are made here; other
  bytes are left as they are.
\<close>

definition lower_char :: "char \<Rightarrow> char" where
  "lower_char c =
     (if 65 \<le> (of_char c :: nat) \<and> (of_char c :: nat) \<le> 90 then char_of ((of_char c :: nat) + 32) else c)"

definition ToLower :: "string \<Rightarrow> string" where
  "ToLower s = map lower_char s"

text \<open>
  \<open>lookupMap\<close> ranges over the keys of the field map and stores each under its lower-case
  form, so of two keys that differ in case only the one visited last stays.  Go does not fix
  the order in which \<open>range\<close> visits a map: the order is the parameter \<open>ord\<close>, which gives
  the keys of a map in the order of the visit.
\<close>

definition lookupMap :: "(string list \<Rightarrow> string list) \<Rightarrow> fieldmap \<Rightarrow> (string \<times> string) list \<times> fieldmap" where
  "lookupMap ord src = (fold (\<lambda>k keys. AList.update (ToLower k) k keys) (ord (map fst src)) [], src)"


text \<open>
  The errors of \<open>EvalTerms\<close>: the sentinel \<open>ErrUnresolvable\<close>, and the error made by
  \<open>fmt.Errorf("%T has no defined field named %s: should be one of: %v", obj, term, validKeys)\<close>,
  kept as the three values it is made of.
\<close>

datatype eval_error =
    ErrUnresolvable
  | NoDefinedField gval string "string list"

text \<open>
  Reading a map at a key that it does not have gives the zero value of the element type, for
  \<open>reflect.Value\<close> the zero value.
\<close>

definition map_index :: "fieldmap \<Rightarrow> string \<Rightarrow> rvalue" where
  "map_index m key = (case map_of m key of Some v \<Rightarrow> v | None \<Rightarrow> (VInvalid, True))"

fun EvalTerms :: "(string list \<Rightarrow> string list) \<Rightarrow> gval \<Rightarrow> string list \<Rightarrow> (eval_error + gval) outcome" where
  "EvalTerms ord obj [] = Returns (Inr obj)"
| "EvalTerms ord obj (term # terms) =
     (let term = ToLower term in
      case FieldMap obj of
        Panics p \<Rightarrow> Panics p
      | Returns fm \<Rightarrow>
          (case lookupMap ord fm of
             (keys, values) \<Rightarrow>
               (case map_of keys term of
                  None \<Rightarrow> Returns (Inl (NoDefinedField obj term (ord (map fst keys))))
                | Some key \<Rightarrow>
                    let val = map_index values key in
                    if Kind (fst val) = KPtr \<and> IsNil (fst val) = Returns True
                    then Returns (Inl ErrUnresolvable)
                    else (case Interface_of val of
                            Panics p \<Rightarrow> Panics p
                          | Returns obj' \<Rightarrow> EvalTerms ord obj' terms))))"


definition cfg_value :: gval where
  "cfg_value =
     VStruct [StructField ''Name'' False True (VString ''web''),
              StructField ''Cfg'' False True (VPtr (VStruct [StructField ''Host'' False True (VString ''localhost'')]))]"

section \<open>Types, ListFields and the field map cache\<close>

text \<open>
  A \<open>reflect.Type\<close>: a struct type has a name and its fields, each with its type.  Types
  are finite trees as well: a struct type that embeds (a pointer to) itself, on which the
  recursion of \<open>addFieldsToMap\<close> would not end, is not a type of the model.
\<close>

datatype gtype =
    TBool
  | TInt
  | TString
  | TPtr gtype
  | TInterface
  | TSlice gtype
  | TArray gtype
  | TMap gtype gtype
  | TChan gtype
  | TFunc
  | TStruct string "gtype field list"

fun TKind :: "gtype \<Rightarrow> kind" where
  "TKind TBool = KBool"
| "TKind TInt = KInt"
| "TKind TString = KString"
| "TKind (TPtr t) = KPtr"
| "TKind TInterface = KInterface"
| "TKind (TSlice t) = KSlice"
| "TKind (TArray t) = KArray"
| "TKind (TMap k t) = KMap"
| "TKind (TChan t) = KChan"
| "TKind TFunc = KFunc"
| "TKind (TStruct n fs) = KStruct"

text \<open>
  The argument \<open>obj interface{}\<close> of the functions that work on types: a \<open>reflect.Type\<close>, a
  \<open>reflect.Value\<close> (\<open>None\<close> for the zero value, which has no type) or any other value, of
  which \<open>reflect.TypeOf\<close> gives the type (\<open>None\<close> for \<open>nil\<close>, of which it gives the nil type).
\<close>

datatype intro_arg =
    AsType gtype
  | AsValue "gtype option"
  | AsOther "gtype option"

definition arg_type :: "intro_arg \<Rightarrow> gtype option outcome" where
  "arg_type obj =
     (case obj of
        AsType oType \<Rightarrow> Returns (Some oType)
      | AsValue None \<Rightarrow> Panics TypeOfZeroValue
      | AsValue (Some t) \<Rightarrow> Returns (Some t)
      | AsOther t \<Rightarrow> Returns t)"

text \<open>The loop \<open>for v.Kind() == reflect.Ptr { v = v.Elem() }\<close>.\<close>

fun strip_pointers :: "gtype \<Rightarrow> gtype" where
  "strip_pointers (TPtr t) = strip_pointers t"
| "strip_pointers t = t"

text \<open>\<open>t.NumField()\<close> and \<open>t.Field(idx)\<close> for every index: the fields of a struct type.\<close>

definition type_fields :: "gtype \<Rightarrow> gtype field list outcome" where
  "type_fields t = (case t of TStruct n fs \<Rightarrow> Returns fs | _ \<Rightarrow> Panics (NumFieldOfNonStruct (TKind t)))"

text \<open>\<open>fmt.Errorf("element is %s, not a struct", e.Type())\<close>, kept as the type it names.\<close>

datatype list_error = ElementNotAStruct gtype

definition ListFields :: "intro_arg \<Rightarrow> (list_error + string list) outcome" where
  "ListFields obj =
     (case arg_type obj of
        Panics p \<Rightarrow> Panics p
      | Returns None \<Rightarrow> Panics NilDereference
      | Returns (Some v) \<Rightarrow>
          let v = strip_pointers v in
          if KStruct \<noteq> TKind v then Returns (Inl (ElementNotAStruct v))
          else (case type_fields v of
                  Panics p \<Rightarrow> Panics p
                | Returns fs \<Rightarrow> Returns (Inr (map fname fs))))"

text \<open>
  The cache \<open>fieldMapCache\<close> maps a type to a Go map, which is a reference: two entries can
  hold the same map, and a write through one is seen through the other.  The maps
  therefore live in a store, \<open>heap\<close>, at addresses; \<open>next_addr\<close> is the first address not in
  use, and \<open>cache\<close> holds addresses.
\<close>

type_synonym namemap = "(string \<times> string) list"

record cache_state =
  heap :: "nat \<Rightarrow> namemap"
  next_addr :: nat
  cache :: "(gtype \<times> nat) list"

definition makeCache :: cache_state where
  "makeCache = \<lparr>heap = (\<lambda>a. []), next_addr = 0, cache = []\<rparr>"

text \<open>\<open>make(map[string]string)\<close>: a new, empty map.\<close>

definition make_map :: "cache_state \<Rightarrow> nat \<times> cache_state" where
  "make_map st = (next_addr st, st\<lparr>heap := (heap st)(next_addr st := []), next_addr := next_addr st + 1\<rparr>)"

definition cache_Get :: "cache_state \<Rightarrow> gtype \<Rightarrow> nat option" where
  "cache_Get st t = map_of (cache st) t"

definition cache_Put :: "gtype \<Rightarrow> nat \<Rightarrow> cache_state \<Rightarrow> cache_state" where
  "cache_Put t m st = st\<lparr>cache := AList.update t m (cache st)\<rparr>"

text \<open>\<open>m[key] = value\<close> on the map at address \<open>m\<close>.\<close>

definition map_store :: "nat \<Rightarrow> string \<Rightarrow> string \<Rightarrow> cache_state \<Rightarrow> cache_state" where
  "map_store m key v st = st\<lparr>heap := (heap st)(m := AList.update key v (heap st m))\<rparr>"

text \<open>\<open>interfaceToConcreteType\<close>, which is given a \<open>reflect.Type\<close> here.\<close>

definition interfaceToConcreteType :: "gtype \<Rightarrow> gtype" where
  "interfaceToConcreteType t = strip_pointers t"

text \<open>
  \<open>addFieldsToMap\<close>, and its loop over the fields.  The map \<open>m\<close> is an address, and the call
  returns the address of the map it hands back: the cached one when the type is in the cache,
  otherwise \<open>m\<close> as the loop leaves it, since the recursive call's result is assigned to
  \<open>m\<close>.  The set \<open>conflicts\<close> is shared by all the calls and never replaced, so it is passed
  along.  The \<open>error\<close> result is nil on every path and is left out.
\<close>

function addFieldsToMap ::
    "nat \<Rightarrow> string set \<Rightarrow> gtype \<Rightarrow> cache_state \<Rightarrow> (nat \<times> string set \<times> cache_state) outcome"
  and add_fields_loop ::
    "gtype field list \<Rightarrow> nat \<Rightarrow> string set \<Rightarrow> cache_state \<Rightarrow> (nat \<times> string set \<times> cache_state) outcome"
  where
  "addFieldsToMap m conflicts t st =
     (case cache_Get st t of
        Some cached \<Rightarrow> Returns (cached, conflicts, st)
      | None \<Rightarrow>
          (case type_fields t of
             Panics p \<Rightarrow> Panics p
           | Returns fs \<Rightarrow>
               (case add_fields_loop fs m conflicts st of
                  Panics p \<Rightarrow> Panics p
                | Returns (m', conflicts', st') \<Rightarrow> Returns (m', conflicts', cache_Put t m' st'))))"
| "add_fields_loop [] m conflicts st = Returns (m, conflicts, st)"
| "add_fields_loop (field # rest) m conflicts st =
     (if anonymous field then
        (case (if map_of (heap st m) (ToLower (fname field)) = None
               then map_store m (ToLower (fname field)) (fname field) st else st) of
           st1 \<Rightarrow>
             if TKind (interfaceToConcreteType (fvalue field)) = KStruct then
               (case addFieldsToMap m conflicts (interfaceToConcreteType (fvalue field)) st1 of
                  Panics p \<Rightarrow> Panics p
                | Returns (m', conflicts', st') \<Rightarrow> add_fields_loop rest m' conflicts' st')
             else add_fields_loop rest m conflicts st1)
      else if map_of (heap st m) (ToLower (fname field)) \<noteq> None then
        add_fields_loop rest m (insert (ToLower (fname field)) conflicts) st
      else if ToLower (fname field) \<notin> conflicts then
        add_fields_loop rest m conflicts (map_store m (ToLower (fname field)) (fname field) st)
      else add_fields_loop rest m conflicts st)"
  by pat_completeness auto

termination
proof (relation "measure (\<lambda>x. case x of Inl (m, c, t, st) \<Rightarrow> 2 * size t + 1
                                        | Inr (fs, m, c, st) \<Rightarrow> 2 * size_list (size_field size) fs)")
  have strip: "size (strip_pointers t) \<le> size t" for t
    by (induction t rule: strip_pointers.induct) auto
  show "wf (measure (\<lambda>x. case x of Inl (m, c, t, st) \<Rightarrow> 2 * size t + 1
                                  | Inr (fs, m, c, st) \<Rightarrow> 2 * size_list (size_field size) fs))"
    by simp
  show "(Inr (fs, m, conflicts, st), Inl (m, conflicts, t, st))
          \<in> measure (\<lambda>x. case x of Inl (m, c, t, st) \<Rightarrow> 2 * size t + 1
                                   | Inr (fs, m, c, st) \<Rightarrow> 2 * size_list (size_field size) fs)"
    if "type_fields t = Returns fs" for m conflicts t st fs
    using that by (cases t) (auto simp: type_fields_def)
  show "(Inl (m, conflicts, interfaceToConcreteType (fvalue field), st1),
         Inr (field # rest, m, conflicts, st))
          \<in> measure (\<lambda>x. case x of Inl (m, c, t, st) \<Rightarrow> 2 * size t + 1
                                   | Inr (fs, m, c, st) \<Rightarrow> 2 * size_list (size_field size) fs)"
    for m conflicts field rest st st1
    using strip [of "fvalue field"] by (cases field) (simp add: interfaceToConcreteType_def)
qed simp_all

declare addFieldsToMap.simps [simp del]

text \<open>\<open>fmt.Errorf("cannot access fields of non-struct type %T", val)\<close>, kept as its argument.\<close>

datatype fieldmap_error = CannotAccessFields intro_arg

text \<open>
  \<open>fieldMap\<close> makes the two maps, finds the type and calls \<open>addFieldsToMap\<close>.  It returns the
  address of the mapping and the state it leaves.
\<close>

definition fieldMap :: "intro_arg \<Rightarrow> cache_state \<Rightarrow> ((fieldmap_error + nat) \<times> cache_state) outcome" where
  "fieldMap val st =
     (case make_map st of
        (m0, st) \<Rightarrow>
          (case arg_type val of
             Panics p \<Rightarrow> Panics p
           | Returns None \<Rightarrow> Panics NilDereference
           | Returns (Some t) \<Rightarrow>
               let t = strip_pointers t in
               if TKind t \<noteq> KStruct then Returns (Inl (CannotAccessFields val), st)
               else (case addFieldsToMap m0 {} t st of
                       Panics p \<Rightarrow> Panics p
                     | Returns (m, conflicts, st') \<Rightarrow> Returns (Inr m, st'))))"

text \<open>
  What a caller sees: the mapping that \<open>fieldMap\<close> returns, read when it returns, and the
  state afterwards; and the mapping that the cache holds for a type.
\<close>

definition returned_mapping :: "((fieldmap_error + nat) \<times> cache_state) outcome \<Rightarrow> namemap option" where
  "returned_mapping r = (case r of Returns (Inr m, st) \<Rightarrow> Some (heap st m) | _ \<Rightarrow> None)"

definition state_after :: "cache_state \<Rightarrow> ((fieldmap_error + nat) \<times> cache_state) outcome \<Rightarrow> cache_state" where
  "state_after st r = (case r of Returns (x, st') \<Rightarrow> st' | Panics p \<Rightarrow> st)"

definition cached_mapping :: "cache_state \<Rightarrow> gtype \<Rightarrow> namemap option" where
  "cached_mapping st t = map_option (heap st) (cache_Get st t)"

text \<open>Two record types: \<open>Inner\<close> with a field \<open>A\<close>, and \<open>Outer\<close>, which embeds \<open>Inner\<close> and has a field \<open>B\<close>.\<close>

definition Inner_type :: gtype where
  "Inner_type = TStruct ''Inner'' [StructField ''A'' False True TString]"

definition Outer_type :: gtype where
  "Outer_type =
     TStruct ''Outer'' [StructField ''Inner'' True True Inner_type, StructField ''B'' False True TString]"

section \<open>The user.user resource (package user)\<close>

text \<open>
  The \<open>Preparer\<close> of the resource \<open>user.user\<close>.  \<open>UID\<close> and \<open>GID\<close> are \<open>*uint32\<close>: \<open>None\<close> is the
  nil pointer.  \<open>State\<close> is a string type.
\<close>

record Preparer =
  Username :: string
  NewUsername :: string
  UID :: "32 word option"
  GroupName :: string
  GID :: "32 word option"
  Name :: string
  HomeDir :: string
  MoveDir :: bool
  State :: string

text \<open>
  Modelled from the spec: the task type \<open>User\<close> is declared in a file that is not among the
  sources.  It has the fields that \<open>Prepare\<close> assigns; \<open>UID\<close> and \<open>GID\<close> are strings there.
  What \<open>NewUser(new(System))\<close> returns is the parameter \<open>newUser\<close> of \<open>Prepare\<close>.
\<close>

record User =
  User_Username :: string
  User_NewUsername :: string
  User_UID :: string
  User_GroupName :: string
  User_GID :: string
  User_Name :: string
  User_HomeDir :: string
  User_MoveDir :: bool
  User_State :: string

text \<open>
  Modelled from the spec: the constant \<open>StatePresent\<close> is declared in a file that is not among
  the sources; the \<open>Preparer\<close>'s documentation says that the default value is \<open>present\<close>.
\<close>

definition StatePresent :: string where
  "StatePresent = ''present''"

definition MaxUint32 :: "32 word" where
  "MaxUint32 = 0xFFFFFFFF"

text \<open>\<open>fmt.Sprintf("%v", n)\<close> for an unsigned integer: its decimal digits.\<close>

definition digit_char :: "nat \<Rightarrow> char" where
  "digit_char d = char_of (48 + d)"

fun decimal :: "nat \<Rightarrow> string" where
  "decimal n = (if n < 10 then [digit_char n] else decimal (n div 10) @ [digit_char (n mod 10)])"

declare decimal.simps [simp del]

datatype user_error =
    UidOutOfRange
  | GidOutOfRange
  | HomeDirRequired

text \<open>
  \<open>Prepare\<close> has a pointer receiver and writes the default into \<open>p.State\<close>, so it returns the
  \<open>Preparer\<close> as it leaves it together with its result.  The \<open>render\<close> argument is not used.
\<close>

definition Prepare :: "User \<Rightarrow> Preparer \<Rightarrow> (user_error + User) \<times> Preparer" where
  "Prepare newUser p =
     (if UID p \<noteq> None \<and> the (UID p) = MaxUint32 then (Inl UidOutOfRange, p)
      else if GID p \<noteq> None \<and> the (GID p) = MaxUint32 then (Inl GidOutOfRange, p)
      else if MoveDir p \<and> HomeDir p = [] then (Inl HomeDirRequired, p)
      else
        let p = (if State p = [] then p\<lparr>State := StatePresent\<rparr> else p);
            usr = newUser;
            usr = usr\<lparr>User_Username := Username p\<rparr>;
            usr = usr\<lparr>User_NewUsername := NewUsername p\<rparr>;
            usr = usr\<lparr>User_GroupName := GroupName p\<rparr>;
            usr = usr\<lparr>User_Name := Name p\<rparr>;
            usr = usr\<lparr>User_HomeDir := HomeDir p\<rparr>;
            usr = usr\<lparr>User_MoveDir := MoveDir p\<rparr>;
            usr = usr\<lparr>User_State := State p\<rparr>;
            usr = (case UID p of None \<Rightarrow> usr | Some uid \<Rightarrow> usr\<lparr>User_UID := decimal (unat uid)\<rparr>);
            usr = (case GID p of None \<Rightarrow> usr | Some gid \<Rightarrow> usr\<lparr>User_GID := decimal (unat gid)\<rparr>)
        in (Inr usr, p))"

text \<open>An example: a \<open>Preparer\<close> with a uid, no gid and no state, and an empty new user.\<close>

definition example_preparer :: Preparer where
  "example_preparer =
     \<lparr>Username = ''alice'', NewUsername = [], UID = Some 1000, GroupName = ''staff'', GID = None,
      Name = ''Alice'', HomeDir = ''/home/alice'', MoveDir = True, State = []\<rparr>"

definition empty_user :: User where
  "empty_user =
     \<lparr>User_Username = [], User_NewUsername = [], User_UID = [], User_GroupName = [], User_GID = [],
      User_Name = [], User_HomeDir = [], User_MoveDir = False, User_State = []\<rparr>"

section \<open>Dotted prefixes and longest-prefix resolution: proofs\<close>



lemma SplitTerms_not_Nil: "SplitTerms s \<noteq> []"
  by (induction s) (auto split: list.splits)

lemma Join_Split: "JoinTerms (SplitTerms s) = s"
proof (induction s)
  case Nil
  then show ?case by (simp add: JoinTerms_def)
next
  case (Cons c cs)
  obtain t ts where ts: "SplitTerms cs = t # ts"
    using SplitTerms_not_Nil [of cs] by (cases "SplitTerms cs") auto
  with Cons show ?case
    by (cases ts) (auto simp: JoinTerms_def)
qed

lemma Inits_eq: "Inits xs = map (\<lambda>i. take (Suc i) xs) (rev [0 ..< length xs])"
proof -
  have "fold (\<lambda>i results. take (i + 1) xs # results) is acc
        = map (\<lambda>i. take (Suc i) xs) (rev is) @ acc" for "is" acc
    by (induction "is" arbitrary: acc) auto
  then show ?thesis by (simp add: Inits_def)
qed

lemma go_join_append:
  "xs \<noteq> [] \<Longrightarrow> ys \<noteq> [] \<Longrightarrow> go_join sep (xs @ ys) = go_join sep xs @ sep @ go_join sep ys"
proof (induction xs)
  case Nil
  then show ?case by simp
next
  case (Cons x xs)
  then show ?case
    by (cases xs; cases ys) auto
qed

lemma Split_append_dot: "SplitTerms (q @ CHR ''.'' # r) = SplitTerms q @ SplitTerms r"
proof (induction q)
  case Nil
  then show ?case by simp
next
  case (Cons c q)
  obtain t ts where ts: "SplitTerms q = t # ts"
    using SplitTerms_not_Nil [of q] by (cases "SplitTerms q") auto
  with Cons show ?case by auto
qed


lemma Prefixes_eq:
  "Prefixes s = map (\<lambda>i. JoinTerms (take (Suc i) (SplitTerms s))) (rev [0 ..< length (SplitTerms s)])"
  by (simp add: Prefixes_def Inits_eq)

lemma JoinTerms_take_drop:
  assumes "0 < k" "k < length (SplitTerms s)"
  shows "s = JoinTerms (take k (SplitTerms s)) @ ''.'' @ JoinTerms (drop k (SplitTerms s))"
proof -
  have "JoinTerms (take k (SplitTerms s) @ drop k (SplitTerms s))
        = JoinTerms (take k (SplitTerms s)) @ ''.'' @ JoinTerms (drop k (SplitTerms s))"
    unfolding JoinTerms_def using assms by (intro go_join_append) auto
  then show ?thesis by (simp add: Join_Split)
qed

lemma set_Prefixes: "set (Prefixes s) = {q. dotted_prefix q s}"
proof (intro equalityI subsetI)
  fix q assume "q \<in> set (Prefixes s)"
  then obtain i where i: "i < length (SplitTerms s)" and q: "q = JoinTerms (take (Suc i) (SplitTerms s))"
    by (auto simp: Prefixes_eq)
  show "q \<in> {q. dotted_prefix q s}"
  proof (cases "Suc i = length (SplitTerms s)")
    case True
    then show ?thesis using q by (simp add: Join_Split dotted_prefix_def)
  next
    case False
    with i have "Suc i < length (SplitTerms s)" by simp
    from JoinTerms_take_drop [OF _ this] q show ?thesis
      by (auto simp: dotted_prefix_def)
  qed
next
  fix q assume "q \<in> {q. dotted_prefix q s}"
  then consider "q = s" | r where "s = q @ ''.'' @ r"
    by (auto simp: dotted_prefix_def)
  then show "q \<in> set (Prefixes s)"
  proof cases
    case 1
    have "length (SplitTerms s) - 1 < length (SplitTerms s)"
      using SplitTerms_not_Nil [of s] by (cases "SplitTerms s") auto
    moreover have "JoinTerms (take (Suc (length (SplitTerms s) - 1)) (SplitTerms s)) = s"
      using SplitTerms_not_Nil [of s] by (simp add: Join_Split)
    ultimately show ?thesis
      unfolding Prefixes_eq by (auto simp: image_iff intro!: bexI [of _ "length (SplitTerms s) - 1"] simp flip: 1)
  next
    case 2
    then have sp: "SplitTerms s = SplitTerms q @ SplitTerms r"
      using Split_append_dot [of q r] by simp
    let ?i = "length (SplitTerms q) - 1"
    have "?i < length (SplitTerms s)"
      using SplitTerms_not_Nil [of q] SplitTerms_not_Nil [of r] sp by (cases "SplitTerms q") auto
    moreover have "JoinTerms (take (Suc ?i) (SplitTerms s)) = q"
      using SplitTerms_not_Nil [of q] sp by (simp add: Join_Split)
    ultimately show ?thesis
      unfolding Prefixes_eq by (auto simp: image_iff intro!: bexI [of _ "?i"])
  qed
qed

lemma length_JoinTerms_take_mono:
  assumes "i < j" "j < length ts"
  shows "length (JoinTerms (take (Suc i) ts)) < length (JoinTerms (take (Suc j) ts))"
proof -
  have "take (Suc j) ts = take (Suc i) ts @ take (j - i) (drop (Suc i) ts)"
    using assms by (simp flip: take_add)
  moreover have "take (Suc i) ts \<noteq> []" "take (j - i) (drop (Suc i) ts) \<noteq> []"
    using assms by auto
  ultimately show ?thesis
    by (simp add: JoinTerms_def go_join_append)
qed

lemma sorted_Prefixes: "sorted_wrt (\<lambda>a b. length b < length a) (Prefixes s)"
proof -
  have "sorted_wrt (\<lambda>i j. j < i) (rev [0 ..< n])" for n :: nat
    by (induction n) auto
  then have "sorted_wrt (\<lambda>i j. j < i \<and> i < length (SplitTerms s)) (rev [0 ..< length (SplitTerms s)])"
    by (rule sorted_wrt_mono_rel [rotated]) auto
  then show ?thesis
    unfolding Prefixes_eq sorted_wrt_map
    by (rule sorted_wrt_mono_rel [rotated]) (auto intro: length_JoinTerms_take_mono)
qed

lemma hd_Prefixes: "hd (Prefixes s) = s"
proof -
  obtain n where n: "length (SplitTerms s) = Suc n"
    using SplitTerms_not_Nil [of s] by (cases "SplitTerms s") auto
  have "JoinTerms (take (Suc n) (SplitTerms s)) = s"
    using n by (simp add: Join_Split)
  then show ?thesis by (simp add: Prefixes_eq n)
qed

lemma hd_SplitTerms: "hd (SplitTerms s) = takeWhile (\<lambda>c. c \<noteq> CHR ''.'') s"
  using SplitTerms_not_Nil by (induction s) (auto split: list.splits)


lemma last_Prefixes: "last (Prefixes s) = takeWhile (\<lambda>c. c \<noteq> CHR ''.'') s"
proof -
  obtain t ts where n: "SplitTerms s = t # ts"
    using SplitTerms_not_Nil [of s] by (cases "SplitTerms s") auto
  have "last (Prefixes s) = JoinTerms (take (Suc 0) (SplitTerms s))"
    by (simp add: Prefixes_eq n last_map last_rev upt_conv_Cons del: upt_Suc)
  also have "\<dots> = hd (SplitTerms s)" by (simp add: n JoinTerms_def)
  finally show ?thesis by (simp add: hd_SplitTerms)
qed


lemma Find_found:
  "Find xs f = (p, True) \<Longrightarrow> \<exists>ys zs. xs = ys @ p # zs \<and> (\<forall>y \<in> set ys. \<not> f y) \<and> f p"
proof (induction xs)
  case Nil
  then show ?case by simp
next
  case (Cons x xs)
  show ?case
  proof (cases "f x")
    case True
    with Cons.prems have "x = p" by simp
    with True show ?thesis by (intro exI [of _ "[]"] exI [of _ xs]) auto
  next
    case False
    with Cons obtain ys zs where "xs = ys @ p # zs" "\<forall>y \<in> set ys. \<not> f y" "f p"
      by auto
    with False show ?thesis by (intro exI [of _ "x # ys"] exI [of _ zs]) auto
  qed
qed

lemma Find_none: "(\<forall>x \<in> set xs. \<not> f x) \<Longrightarrow> Find xs f = ([], False)"
  by (induction xs) auto

lemma Find_not_found: "Find xs f = (p, False) \<Longrightarrow> p = [] \<and> (\<forall>x \<in> set xs. \<not> f x)"
  by (induction xs) (auto split: if_splits)

lemma Find_Prefixes_longest:
  assumes "Find (Prefixes s) f = (p, True)"
  shows "f p \<and> dotted_prefix p s \<and> (\<forall>q. dotted_prefix q s \<and> length p < length q \<longrightarrow> \<not> f q)"
proof -
  from Find_found [OF assms] obtain ys zs where
    xs: "Prefixes s = ys @ p # zs" and ys: "\<forall>y \<in> set ys. \<not> f y" and p: "f p"
    by blast
  have "p \<in> set (Prefixes s)" by (simp add: xs)
  then have dp: "dotted_prefix p s" by (simp add: set_Prefixes)
  have "\<not> f q" if q: "dotted_prefix q s" and len: "length p < length q" for q
  proof -
    from q have "q \<in> set (ys @ p # zs)" using set_Prefixes [of s] xs by auto
    moreover have "\<forall>z \<in> set zs. length z < length p"
      using sorted_Prefixes [of s] unfolding xs by (simp add: sorted_wrt_append)
    ultimately have "q \<in> set ys" using len by auto
    with ys show ?thesis by blast
  qed
  with p dp show ?thesis by blast
qed

lemma VertexSplit_cases:
  "VertexSplit g s =
     (case Find (Prefixes s) (Contains g) of
        (p, found) \<Rightarrow>
          if \<not> found then Returns ([], s, False)
          else if p = s then Returns (p, [], True)
          else Returns (p, drop (length p + 1) s, True))"
proof (cases "Find (Prefixes s) (Contains g)")
  case (Pair p found)
  show ?thesis
  proof (cases "found \<and> p \<noteq> s")
    case True
    with Pair have "dotted_prefix p s"
      using Find_Prefixes_longest [of s "Contains g" p] by simp
    with True obtain r where "s = p @ ''.'' @ r" by (auto simp: dotted_prefix_def)
    then have "length p + 1 \<le> length s" by simp
    with Pair True show ?thesis by (simp add: VertexSplit_def slice_from_def)
  next
    case False
    with Pair show ?thesis by (auto simp: VertexSplit_def)
  qed
qed

text \<open>
  Claim C9.  For every string \<open>s\<close>, \<open>Prefixes s\<close> lists exactly the dotted prefixes of \<open>s\<close>, each
  strictly longer than the ones after it; the list begins with \<open>s\<close> itself and ends with the
  first segment of \<open>s\<close> (the text before its first dot).
\<close>

theorem Prefixes_longest_to_shortest:
  "set (Prefixes s) = {q. dotted_prefix q s} \<and>
   sorted_wrt (\<lambda>a b. length b < length a) (Prefixes s) \<and>
   Prefixes s \<noteq> [] \<and>
   hd (Prefixes s) = s \<and>
   last (Prefixes s) = hd (SplitTerms s) \<and>
   last (Prefixes s) = takeWhile (\<lambda>c. c \<noteq> CHR ''.'') s"
proof -
  have "Prefixes s \<noteq> []"
    using SplitTerms_not_Nil [of s] by (simp add: Prefixes_eq)
  then show ?thesis
    by (simp add: set_Prefixes sorted_Prefixes hd_Prefixes last_Prefixes hd_SplitTerms)
qed

text \<open>
  Claim C1.  For every graph \<open>g\<close> and string \<open>s\<close>: if \<open>VertexSplit g s\<close> returns \<open>(p, r, true)\<close>
  then \<open>p\<close> is a vertex of \<open>g\<close>, either \<open>r\<close> is empty and \<open>p = s\<close> or \<open>s = p + "." + r\<close>, and no
  strictly longer dotted prefix of \<open>s\<close> is a vertex of \<open>g\<close>; if no dotted prefix of \<open>s\<close> is a vertex
  of \<open>g\<close> then \<open>VertexSplit\<close> returns not-found with the whole of \<open>s\<close> as the remainder.  The
  slice expression never panics: \<open>VertexSplit\<close> always returns.
\<close>

theorem VertexSplit_longest_prefix:
  "(VertexSplit g s = Returns (p, r, True) \<longrightarrow>
      Contains g p \<and> (r = [] \<and> p = s \<or> s = p @ ''.'' @ r) \<and>
      (\<forall>q. dotted_prefix q s \<and> length p < length q \<longrightarrow> \<not> Contains g q)) \<and>
   ((\<forall>q. dotted_prefix q s \<longrightarrow> \<not> Contains g q) \<longrightarrow> VertexSplit g s = Returns ([], s, False)) \<and>
   (\<exists>res. VertexSplit g s = Returns res)"
proof (intro conjI impI)
  assume vs: "VertexSplit g s = Returns (p, r, True)"
  obtain p' found where F: "Find (Prefixes s) (Contains g) = (p', found)"
    by (cases "Find (Prefixes s) (Contains g)")
  with vs have found: "found" and p': "p' = p"
    by (auto simp: VertexSplit_cases split: if_splits)
  from F found p' have L: "Contains g p" "dotted_prefix p s"
    "\<forall>q. dotted_prefix q s \<and> length p < length q \<longrightarrow> \<not> Contains g q"
    using Find_Prefixes_longest [of s "Contains g" p] by simp_all
  show "Contains g p" by fact
  show "\<forall>q. dotted_prefix q s \<and> length p < length q \<longrightarrow> \<not> Contains g q" by fact
  show "r = [] \<and> p = s \<or> s = p @ ''.'' @ r"
  proof (cases "p = s")
    case True
    with vs F found p' show ?thesis by (simp add: VertexSplit_cases)
  next
    case False
    with L(2) obtain r' where r': "s = p @ ''.'' @ r'" by (auto simp: dotted_prefix_def)
    from vs F found p' False have "r = drop (length p + 1) s" by (simp add: VertexSplit_cases)
    also have "\<dots> = r'" by (subst r') simp
    finally show ?thesis using r' by simp
  qed
next
  assume "\<forall>q. dotted_prefix q s \<longrightarrow> \<not> Contains g q"
  then have "\<forall>x \<in> set (Prefixes s). \<not> Contains g x" by (simp add: set_Prefixes)
  from Find_none [OF this] show "VertexSplit g s = Returns ([], s, False)"
    by (simp add: VertexSplit_cases)
next
  show "\<exists>res. VertexSplit g s = Returns res"
    by (cases "Find (Prefixes s) (Contains g)") (auto simp: VertexSplit_cases)
qed

theorem VertexSplit_longest_prefix_witness:
  "VertexSplit abc_graph ''a.b.c.d.e'' = Returns (''a.b.c'', ''d.e'', True) \<and>
   Contains abc_graph ''a.b.c'' \<and>
   ''a.b.c.d.e'' = ''a.b.c'' @ ''.'' @ ''d.e'' \<and>
   \<not> Contains abc_graph ''a.b.c.d'' \<and>
   VertexSplit abc_graph ''z'' = Returns ([], ''z'', False)"
proof -
  have split: "VertexSplit abc_graph ''a.b.c.d.e'' = Returns (''a.b.c'', ''d.e'', True)"
    by code_simp
  have absent: "\<forall>q. dotted_prefix q ''z'' \<longrightarrow> \<not> Contains abc_graph q"
    by (auto simp: dotted_prefix_def Contains_def abc_graph_def graph_of_def)
  have longer: "dotted_prefix ''a.b.c.d'' ''a.b.c.d.e''"
    by (simp add: dotted_prefix_def)
  from VertexSplit_longest_prefix [of abc_graph "''a.b.c.d.e''" "''a.b.c''" "''d.e''"] split longer
  have "Contains abc_graph ''a.b.c'' \<and> \<not> Contains abc_graph ''a.b.c.d''"
    by auto
  moreover from VertexSplit_longest_prefix [of abc_graph "''z''" "[]" "[]"] absent
  have "VertexSplit abc_graph ''z'' = Returns ([], ''z'', False)"
    by blast
  ultimately show ?thesis using split by simp
qed

section \<open>Scope-aware resolution: proofs\<close>




lemma scope_stop:
  "TraverseUntilModule (scope_graph e1 ex e2 ey) v \<longleftrightarrow> v \<noteq> ''root.m1.file.x'' \<and> v \<noteq> ''root.m2.file.y''"
  by (simp add: TraverseUntilModule_def scope_graph_def graph_of_def Get_def IsRoot_def)







text \<open>
  Claim C5, as amended.  When the loop over the children of the starting vertex is exhausted
  without a match, \<open>VertexSplitTraverse\<close> first asks \<open>stop\<close> about the starting vertex: if it
  holds, the call returns not-found with the name as the remainder and the sibling is not
  tried.  Otherwise \<open>VertexSplit\<close> is tried on \<open>SiblingID start name\<close>: a match is returned, and
  on failure the call recurses to \<open>ParentID start\<close>.
\<close>

theorem VertexSplitTraverse_after_children:
  assumes "traverse_children (\<lambda>child h. VertexSplitTraverse fuel g name child stop h)
             (stop g) (Children g start) (insert start h) = Some (Returns (None, h'))"
  shows "(stop g start \<longrightarrow>
            VertexSplitTraverse (Suc fuel) g name start stop h = Some (Returns (([], name, False), h'))) \<and>
         (\<not> stop g start \<and> VertexSplit g (SiblingID start name) = Returns (v, m, True) \<longrightarrow>
            VertexSplitTraverse (Suc fuel) g name start stop h = Some (Returns ((v, m, True), h'))) \<and>
         (\<not> stop g start \<and> VertexSplit g (SiblingID start name) = Returns (v, m, False) \<longrightarrow>
            VertexSplitTraverse (Suc fuel) g name start stop h
              = VertexSplitTraverse fuel g name (ParentID start) stop h')"
  using assms by simp

text \<open>
  Claim C5 as stated fails: at the module \<open>root.m1.module\<close>, where \<open>stop\<close> holds, the children
  are exhausted and the sibling id \<open>root.m1.file.x\<close> is a vertex, so a sibling attempt would
  match; the call returns not-found.
\<close>

theorem sibling_skipped_counterexample:
  "TraverseUntilModule (scope_graph [] [] [] []) ''root.m1.module'' \<and>
   traverse_children
     (\<lambda>child h. VertexSplitTraverse 2 (scope_graph [] [] [] []) ''file.x'' child TraverseUntilModule h)
     (TraverseUntilModule (scope_graph [] [] [] [])) (Children (scope_graph [] [] [] []) ''root.m1.module'')
     (insert ''root.m1.module'' {}) = Some (Returns (None, {''root.m1.module''})) \<and>
   VertexSplit (scope_graph [] [] [] []) (SiblingID ''root.m1.module'' ''file.x'')
     = Returns (''root.m1.file.x'', [], True) \<and>
   VertexSplitTraverse 3 (scope_graph [] [] [] []) ''file.x'' ''root.m1.module'' TraverseUntilModule {}
     = Some (Returns (([], ''file.x'', False), {''root.m1.module''}))"
  by code_simp

theorem VertexSplitTraverse_after_children_witness:
  "traverse_children
     (\<lambda>child h. VertexSplitTraverse 2 (scope_graph [] [] [] []) ''file.x'' child TraverseUntilModule h)
     (TraverseUntilModule (scope_graph [] [] [] [])) (Children (scope_graph [] [] [] []) ''root.m1.module'')
     (insert ''root.m1.module'' {}) = Some (Returns (None, {''root.m1.module''})) \<and>
   TraverseUntilModule (scope_graph [] [] [] []) ''root.m1.module'' \<and>
   VertexSplitTraverse (Suc 2) (scope_graph [] [] [] []) ''file.x'' ''root.m1.module'' TraverseUntilModule {}
     = Some (Returns (([], ''file.x'', False), {''root.m1.module''})) \<and>
   traverse_children
     (\<lambda>child h. VertexSplitTraverse 2 (scope_graph [] [] [] []) ''x.dest'' child TraverseUntilModule h)
     (TraverseUntilModule (scope_graph [] [] [] [])) (Children (scope_graph [] [] [] []) ''root.m1.file.x'')
     (insert ''root.m1.file.x'' {}) = Some (Returns (None, {''root.m1.file.x''})) \<and>
   \<not> TraverseUntilModule (scope_graph [] [] [] []) ''root.m1.file.x'' \<and>
   VertexSplit (scope_graph [] [] [] []) (SiblingID ''root.m1.file.x'' ''x.dest'')
     = Returns (''root.m1.file.x'', ''dest'', True) \<and>
   VertexSplitTraverse (Suc 2) (scope_graph [] [] [] []) ''x.dest'' ''root.m1.file.x'' TraverseUntilModule {}
     = Some (Returns ((''root.m1.file.x'', ''dest'', True), {''root.m1.file.x''})) \<and>
   VertexSplit (scope_graph [] [] [] []) (SiblingID ''root.m1.file.x'' ''y'')
     = Returns ([], ''root.m1.file.y'', False) \<and>
   VertexSplitTraverse (Suc 2) (scope_graph [] [] [] []) ''y'' ''root.m1.file.x'' TraverseUntilModule {}
     = VertexSplitTraverse 2 (scope_graph [] [] [] []) ''y'' (ParentID ''root.m1.file.x'') TraverseUntilModule
         {''root.m1.file.x''}"
proof -
  let ?g = "scope_graph [] [] [] []"
  have c1: "traverse_children
     (\<lambda>child h. VertexSplitTraverse 2 ?g ''file.x'' child TraverseUntilModule h)
     (TraverseUntilModule ?g) (Children ?g ''root.m1.module'')
     (insert ''root.m1.module'' {}) = Some (Returns (None, {''root.m1.module''}))"
    by (simp add: Children_def scope_graph_def graph_of_def)
  have s1: "TraverseUntilModule ?g ''root.m1.module''"
    by (simp add: scope_stop)
  have c2: "traverse_children
     (\<lambda>child h. VertexSplitTraverse 2 ?g ''x.dest'' child TraverseUntilModule h)
     (TraverseUntilModule ?g) (Children ?g ''root.m1.file.x'')
     (insert ''root.m1.file.x'' {}) = Some (Returns (None, {''root.m1.file.x''}))"
    by (simp add: Children_def scope_graph_def graph_of_def)
  have s2: "\<not> TraverseUntilModule ?g ''root.m1.file.x''"
    by (simp add: scope_stop)
  have v2: "VertexSplit ?g (SiblingID ''root.m1.file.x'' ''x.dest'') = Returns (''root.m1.file.x'', ''dest'', True)"
    by code_simp
  from VertexSplitTraverse_after_children [OF c1] s1
  have "VertexSplitTraverse (Suc 2) ?g ''file.x'' ''root.m1.module'' TraverseUntilModule {}
     = Some (Returns (([], ''file.x'', False), {''root.m1.module''}))"
    by blast
  moreover from VertexSplitTraverse_after_children [OF c2, of "''root.m1.file.x''" "''dest''"] s2 v2
  have "VertexSplitTraverse (Suc 2) ?g ''x.dest'' ''root.m1.file.x'' TraverseUntilModule {}
     = Some (Returns ((''root.m1.file.x'', ''dest'', True), {''root.m1.file.x''}))"
    by blast
  moreover have c3: "traverse_children
     (\<lambda>child h. VertexSplitTraverse 2 ?g ''y'' child TraverseUntilModule h)
     (TraverseUntilModule ?g) (Children ?g ''root.m1.file.x'')
     (insert ''root.m1.file.x'' {}) = Some (Returns (None, {''root.m1.file.x''}))"
    by (simp add: Children_def scope_graph_def graph_of_def)
  moreover have v3: "VertexSplit ?g (SiblingID ''root.m1.file.x'' ''y'') = Returns ([], ''root.m1.file.y'', False)"
    by code_simp
  moreover from VertexSplitTraverse_after_children [OF c3, of "[]" "''root.m1.file.y''"] s2 v3
  have "VertexSplitTraverse (Suc 2) ?g ''y'' ''root.m1.file.x'' TraverseUntilModule {}
     = VertexSplitTraverse 2 ?g ''y'' (ParentID ''root.m1.file.x'') TraverseUntilModule {''root.m1.file.x''}"
    by blast
  ultimately show ?thesis using c1 s1 c2 s2 v2 by simp
qed


text \<open>More fuel never changes a result: the depth bound only cuts calls off.\<close>

lemma traverse_children_mono:
  assumes "\<And>c h r. rec c h = Some r \<Longrightarrow> rec' c h = Some r"
  shows "traverse_children rec stop cs h = Some r \<Longrightarrow> traverse_children rec' stop cs h = Some r"
proof (induction cs arbitrary: h)
  case Nil
  then show ?case by simp
next
  case (Cons c cs)
  show ?case
  proof (cases "c \<in> h \<or> stop c")
    case True
    with Cons.prems have "traverse_children rec stop cs h = Some r" by (auto split: if_splits)
    then have "traverse_children rec' stop cs h = Some r" by (rule Cons.IH)
    with True show ?thesis by auto
  next
    case False
    with Cons.prems obtain r1 where r1: "rec c h = Some r1"
      by (cases "rec c h") auto
    then have r1': "rec' c h = Some r1" by (rule assms)
    show ?thesis
    proof (cases r1)
      case (Panics p)
      with Cons.prems False r1 r1' show ?thesis by simp
    next
      case (Returns x)
      obtain vertex middle found h' where x: "x = ((vertex, middle, found), h')"
        by (cases x) auto
      show ?thesis
      proof (cases found)
        case True
        with Cons.prems False r1 r1' Returns x show ?thesis by simp
      next
        case nf: False
        with Cons.prems False r1 Returns x have "traverse_children rec stop cs h' = Some r" by simp
        then have "traverse_children rec' stop cs h' = Some r" by (rule Cons.IH)
        with nf False r1' Returns x show ?thesis by simp
      qed
    qed
  qed
qed

lemma VertexSplitTraverse_fuel_mono:
  "VertexSplitTraverse n g t v stop h = Some r \<Longrightarrow> VertexSplitTraverse (Suc n) g t v stop h = Some r"
proof (induction n arbitrary: v h r)
  case 0
  then show ?case by simp
next
  case (Suc n)
  let ?loop = "\<lambda>k. traverse_children (\<lambda>child h. VertexSplitTraverse k g t child stop h)
             (stop g) (Children g v) (insert v h)"
  from Suc.prems obtain l where l: "?loop n = Some l"
    by (cases "?loop n") auto
  have l': "?loop (Suc n) = Some l"
    by (rule traverse_children_mono [where rec = "\<lambda>child h. VertexSplitTraverse n g t child stop h", OF Suc.IH l])
  show ?case
  proof (cases "\<exists>h1 v1 m1. l = Returns (None, h1) \<and> \<not> stop g v
                  \<and> VertexSplit g (SiblingID v t) = Returns (v1, m1, False)")
    case True
    then obtain h1 v1 m1 where *: "l = Returns (None, h1)" "\<not> stop g v"
      "VertexSplit g (SiblingID v t) = Returns (v1, m1, False)" by blast
    with Suc.prems l have "VertexSplitTraverse n g t (ParentID v) stop h1 = Some r" by simp
    then have "VertexSplitTraverse (Suc n) g t (ParentID v) stop h1 = Some r" by (rule Suc.IH)
    with * l' show ?thesis by (subst VertexSplitTraverse.simps(2)) (simp del: VertexSplitTraverse.simps)
  next
    case False
    have "VertexSplitTraverse (Suc (Suc n)) g t v stop h = VertexSplitTraverse (Suc n) g t v stop h"
      apply (subst VertexSplitTraverse.simps(2))
      apply (subst (2) VertexSplitTraverse.simps(2))
      using False unfolding l l'
      by (auto simp del: VertexSplitTraverse.simps split: outcome.splits option.splits prod.splits)
    with Suc.prems show ?thesis by simp
  qed
qed

section \<open>Desugaring a call: proofs\<close>

lemma dotted_prefix_take: "dotted_prefix q s \<Longrightarrow> q = take (length q) s"
  by (auto simp: dotted_prefix_def)

lemma Find_Prefixes_unique:
  assumes inG: "f p" and pre: "dotted_prefix p s"
    and longest: "\<forall>q. dotted_prefix q s \<and> length p < length q \<longrightarrow> \<not> f q"
  shows "Find (Prefixes s) f = (p, True)"
proof -
  obtain p' b where F: "Find (Prefixes s) f = (p', b)"
    by (cases "Find (Prefixes s) f")
  have b: "b"
  proof (rule ccontr)
    assume "\<not> b"
    with F have "\<forall>x \<in> set (Prefixes s). \<not> f x"
      using Find_not_found [of "Prefixes s" f p'] by simp
    with pre inG show False by (simp add: set_Prefixes)
  qed
  with F Find_Prefixes_longest [of s f p']
  have p': "f p'" "dotted_prefix p' s" "\<forall>q. dotted_prefix q s \<and> length p' < length q \<longrightarrow> \<not> f q"
    by simp_all
  have "length p = length p'"
    using p' inG pre longest by (meson linorder_neqE_nat)
  with dotted_prefix_take [OF pre] dotted_prefix_take [OF p'(2)] have "p = p'" by simp
  with F b show ?thesis by simp
qed

text \<open>
  Claim C7, as amended.  Let \<open>p\<close> be the longest dotted prefix of the call \<open>s\<close> that is a vertex of
  \<open>g\<close>, made of plain characters, and \<open>r\<close> the remainder after \<open>p\<close> and its dot.  Then
  \<open>DesugarCall\<close> emits \<open>(noderef "p")\<close> when \<open>r\<close> is empty, and otherwise \<open>(noderef "p")\<close>
  followed at once by a bar, a space and the segments of \<open>r\<close> joined by \<open>" | "\<close>: there is no
  space between the closing parenthesis and the first bar.
\<close>

theorem DesugarCall_output:
  assumes q: "quotes_plain quote" and pl: "plain_string p"
    and inG: "Contains g p" and pre: "s = p \<and> r = [] \<or> s = p @ ''.'' @ r"
    and longest: "\<forall>q. dotted_prefix q s \<and> length p < length q \<longrightarrow> \<not> Contains g q"
  shows "DesugarCall quote g s =
           Returns (Inr (''(noderef '' @ [CHR 0x22] @ p @ [CHR 0x22] @ '')'' @
                         (if r = [] then [] else ''| '' @ go_join '' | '' (SplitTerms r))))"
proof -
  from pre have dp: "dotted_prefix p s" by (auto simp: dotted_prefix_def)
  have F: "Find (Prefixes s) (Contains g) = (p, True)"
    using inG dp longest by (rule Find_Prefixes_unique)
  have "VertexSplit g s = Returns (p, r, True)"
  proof (cases "s = p")
    case True
    with pre have "r = []" by auto
    with F True show ?thesis by (simp add: VertexSplit_cases)
  next
    case False
    with pre have s: "s = p @ ''.'' @ r" by simp
    have "drop (length p + 1) s = r" by (subst s) simp
    with F False show ?thesis by (simp add: VertexSplit_cases)
  qed
  moreover have "quote p = CHR 0x22 # p @ [CHR 0x22]"
    using q pl by (simp add: quotes_plain_def)
  ultimately show ?thesis
    by (simp add: DesugarCall_def MkCallPipeline_def)
qed

lemma DesugarCall_not_found:
  "(\<forall>q. dotted_prefix q s \<longrightarrow> \<not> Contains g q) \<Longrightarrow> DesugarCall quote g s = Returns (Inl NonExistantDependency)"
  using Find_none [of "Prefixes s" "Contains g"]
  by (simp add: DesugarCall_def VertexSplit_cases set_Prefixes)

text \<open>
  Claim C7 as stated fails: on the graph with the vertex \<open>task.go-dl\<close> the call
  \<open>task.go-dl.dir\<close> is desugared to \<open>(noderef "task.go-dl")| dir\<close>, which is not the string
  \<open>(noderef "task.go-dl") | dir\<close>.
\<close>

theorem DesugarCall_space_counterexample:
  "DesugarCall plain_quote godl_graph ''task.go-dl.dir''
     = Returns (Inr (''(noderef '' @ [CHR 0x22] @ ''task.go-dl'' @ [CHR 0x22] @ '')| dir'')) \<and>
   DesugarCall plain_quote godl_graph ''task.go-dl.dir''
     \<noteq> Returns (Inr (''(noderef '' @ [CHR 0x22] @ ''task.go-dl'' @ [CHR 0x22] @ '') | dir''))"
  by code_simp

theorem DesugarCall_output_witness:
  "quotes_plain plain_quote \<and> plain_string ''task.go-dl'' \<and> Contains godl_graph ''task.go-dl'' \<and>
   \<not> Contains godl_graph ''task.go-dl.dir'' \<and>
   DesugarCall plain_quote godl_graph ''task.go-dl.dir''
     = Returns (Inr (''(noderef '' @ [CHR 0x22] @ ''task.go-dl'' @ [CHR 0x22] @ '')| dir'')) \<and>
   DesugarCall plain_quote godl_graph ''task.go-dl''
     = Returns (Inr (''(noderef '' @ [CHR 0x22] @ ''task.go-dl'' @ [CHR 0x22] @ '')''))"
proof -
  have q: "quotes_plain plain_quote"
    by (simp add: quotes_plain_def plain_quote_def)
  have pl: "plain_string ''task.go-dl''"
    by (simp add: plain_string_def plain_char_def)
  have inG: "Contains godl_graph ''task.go-dl''"
    by (simp add: Contains_def godl_graph_def graph_of_def)
  have only: "Contains godl_graph v \<longleftrightarrow> v = ''task.go-dl''" for v
    by (simp add: Contains_def godl_graph_def graph_of_def)
  have l1: "\<forall>q. dotted_prefix q ''task.go-dl.dir'' \<and> length ''task.go-dl'' < length q \<longrightarrow> \<not> Contains godl_graph q"
    by (auto simp: only)
  have l2: "\<forall>q. dotted_prefix q ''task.go-dl'' \<and> length ''task.go-dl'' < length q \<longrightarrow> \<not> Contains godl_graph q"
    by (auto simp: only)
  have "DesugarCall plain_quote godl_graph ''task.go-dl.dir''
     = Returns (Inr (''(noderef '' @ [CHR 0x22] @ ''task.go-dl'' @ [CHR 0x22] @ '')| dir''))"
    using DesugarCall_output [OF q pl inG _ l1, of "''dir''"] by simp
  moreover have "DesugarCall plain_quote godl_graph ''task.go-dl''
     = Returns (Inr (''(noderef '' @ [CHR 0x22] @ ''task.go-dl'' @ [CHR 0x22] @ '')''))"
    using DesugarCall_output [OF q pl inG _ l2, of "[]"] by simp
  ultimately show ?thesis using q pl inG by (simp add: only)
qed

section \<open>FieldMap: proofs\<close>

lemma indirect_loop: "indirect v = (if indirectStruct v then indirect (Elem v) else v)"
proof (cases v)
  case (VNil k)
  then show ?thesis by (cases k) (simp_all add: indirectStruct_def Elem_def IsNil_def)
next
  case (VOpaque k)
  then show ?thesis by (cases k) (simp_all add: indirectStruct_def Elem_def IsNil_def)
qed (simp_all add: indirectStruct_def Elem_def IsNil_def)

lemma fields_loop_Cons_cases:
  assumes "fields_loop (f # rest) idx st = Returns st'"
  obtains
    (declared) "\<not> anonymous f"
      "fields_loop rest (idx + 1)
         (st\<lparr>unembeddedRefs := AList.update (fname f) idx (unembeddedRefs st),
             results := AList.update (fname f) (fvalue f, exported f) (results st)\<rparr>) = Returns st'"
  | (nil) "anonymous f" "nil_check (fvalue f) = Returns True"
      "fields_loop rest (idx + 1)
         (st\<lparr>results := AList.update (fname f) (fvalue f, exported f) (results st)\<rparr>) = Returns st'"
  | (embedded) sub m where "anonymous f" "nil_check (fvalue f) = Returns False"
      "Interface_of (fvalue f, exported f) = Returns sub" "FieldMap sub = Returns m"
      "fields_loop rest (idx + 1)
         ((fold merge_key m st)\<lparr>results :=
            AList.update (fname f) (fvalue f, exported f) (results (fold merge_key m st))\<rparr>) = Returns st'"
proof (cases "anonymous f")
  case False
  with assms show ?thesis by (intro declared) simp_all
next
  case True
  show ?thesis
  proof (cases "nil_check (fvalue f)")
    case (Panics p)
    with assms True show ?thesis by simp
  next
    case (Returns b)
    show ?thesis
    proof (cases b)
      case True
      with assms \<open>anonymous f\<close> Returns show ?thesis by (intro nil) simp_all
    next
      case False
      with assms \<open>anonymous f\<close> Returns obtain sub where sub: "Interface_of (fvalue f, exported f) = Returns sub"
        by (cases "Interface_of (fvalue f, exported f)") auto
      with assms \<open>anonymous f\<close> Returns False obtain m where m: "FieldMap sub = Returns m"
        by (cases "FieldMap sub") auto
      with assms \<open>anonymous f\<close> Returns False sub show ?thesis by (intro embedded) simp_all
    qed
  qed
qed

text \<open>What merging the keys of an embedded record does to the three maps.\<close>

lemma merge_key_unembedded [simp]: "unembeddedRefs (merge_key kv st) = unembeddedRefs st"
  by (cases kv) (simp add: merge_key_def Let_def split: option.split)

lemma fold_merge_unembedded [simp]: "unembeddedRefs (fold merge_key m st) = unembeddedRefs st"
  by (induction m arbitrary: st) simp_all

lemma merge_key_results_kept:
  "map_of (results st) n = Some v \<Longrightarrow> map_of (results (merge_key kv st)) n = Some v"
  by (cases kv) (auto simp: merge_key_def Let_def update_conv' split: option.split)

lemma fold_merge_results_kept:
  "map_of (results st) n = Some v \<Longrightarrow> map_of (results (fold merge_key m st)) n = Some v"
  by (induction m arbitrary: st) (simp_all add: merge_key_results_kept)

lemma merge_key_results_distinct:
  "distinct (map fst (results st)) \<Longrightarrow> distinct (map fst (results (merge_key kv st)))"
  by (cases kv) (auto simp: merge_key_def Let_def distinct_update split: option.split)

lemma fold_merge_results_distinct:
  "distinct (map fst (results st)) \<Longrightarrow> distinct (map fst (results (fold merge_key m st)))"
  by (induction m arbitrary: st) (simp_all add: merge_key_results_distinct)

lemma merge_key_embedded_distinct:
  "distinct (map fst (embeddedRefs st)) \<Longrightarrow> distinct (map fst (embeddedRefs (merge_key kv st)))"
  by (cases kv) (auto simp: merge_key_def Let_def distinct_update split: option.split)

lemma fold_merge_embedded_distinct:
  "distinct (map fst (embeddedRefs st)) \<Longrightarrow> distinct (map fst (embeddedRefs (fold merge_key m st)))"
  by (induction m arbitrary: st) (simp_all add: merge_key_embedded_distinct)

lemma merge_key_counted:
  "counted (embeddedRefs (merge_key (k', v) st)) k = counted (embeddedRefs st) k + (if k = k' then 1 else 0)"
  by (auto simp: merge_key_def Let_def counted_def update_conv' split: option.split)

lemma fold_merge_counted:
  "distinct (map fst m) \<Longrightarrow>
   counted (embeddedRefs (fold merge_key m st)) k
     = counted (embeddedRefs st) k + (if map_of m k \<noteq> None then 1 else 0)"
proof (induction m arbitrary: st)
  case Nil
  then show ?case by simp
next
  case (Cons kv m)
  obtain k' v where kv: "kv = (k', v)" by (cases kv)
  from Cons.prems kv have d: "distinct (map fst m)" and nk: "k' \<notin> fst ` set m" by auto
  from nk have "map_of m k' = None" by (simp add: map_of_eq_None_iff)
  then show ?case
    using Cons.IH [OF d, of "merge_key kv st"] by (auto simp: kv merge_key_counted)
qed

lemma fields_loop_results_kept:
  "fields_loop fs idx st = Returns st' \<Longrightarrow> map_of (results st) n = Some v \<Longrightarrow>
   n \<notin> fname ` set fs \<Longrightarrow> map_of (results st') n = Some v"
proof (induction fs arbitrary: idx st)
  case Nil
  then show ?case by simp
next
  case (Cons f rest)
  from Cons.prems(3) have ne: "fname f \<noteq> n" and nr: "n \<notin> fname ` set rest" by auto
  from Cons.prems(1) show ?case
  proof (cases rule: fields_loop_Cons_cases)
    case declared
    from Cons.IH [OF declared(2) _ nr] Cons.prems(2) ne show ?thesis
      by (simp add: update_conv')
  next
    case nil
    from Cons.IH [OF nil(3) _ nr] Cons.prems(2) ne show ?thesis
      by (simp add: update_conv')
  next
    case (embedded sub m)
    from Cons.IH [OF embedded(5) _ nr] fold_merge_results_kept [OF Cons.prems(2), of m] ne show ?thesis
      by (simp add: update_conv')
  qed
qed

lemma fields_loop_declared:
  "fields_loop fs idx st = Returns st' \<Longrightarrow> distinct (map fname fs) \<Longrightarrow>
   f \<in> set fs \<Longrightarrow> \<not> anonymous f \<Longrightarrow>
   map_of (results st') (fname f) = Some (fvalue f, exported f)"
proof (induction fs arbitrary: idx st)
  case Nil
  then show ?case by simp
next
  case (Cons g rest)
  from Cons.prems(2) have d: "distinct (map fname rest)" and ng: "fname g \<notin> fname ` set rest" by auto
  show ?case
  proof (cases "f = g")
    case True
    from Cons.prems(1) show ?thesis
    proof (cases rule: fields_loop_Cons_cases)
      case declared
      from fields_loop_results_kept [OF declared(2) _ ng, of "(fvalue g, exported g)"] True
      show ?thesis by (simp add: update_conv')
    next
      case nil
      with True Cons.prems(4) show ?thesis by simp
    next
      case (embedded sub m)
      with True Cons.prems(4) show ?thesis by simp
    qed
  next
    case False
    with Cons.prems(3) have "f \<in> set rest" by simp
    from Cons.prems(1) show ?thesis
      by (cases rule: fields_loop_Cons_cases)
        (rule Cons.IH [OF _ d \<open>f \<in> set rest\<close> Cons.prems(4)], assumption)+
  qed
qed

lemma fields_loop_unembedded_kept:
  "fields_loop fs idx st = Returns st' \<Longrightarrow> \<forall>f \<in> set fs. \<not> anonymous f \<longrightarrow> fname f \<noteq> n \<Longrightarrow>
   map_of (unembeddedRefs st') n = map_of (unembeddedRefs st) n"
proof (induction fs arbitrary: idx st)
  case Nil
  then show ?case by simp
next
  case (Cons f rest)
  from Cons.prems(2) have r: "\<forall>f \<in> set rest. \<not> anonymous f \<longrightarrow> fname f \<noteq> n" by simp
  from Cons.prems(1) show ?case
  proof (cases rule: fields_loop_Cons_cases)
    case declared
    with Cons.prems(2) have "fname f \<noteq> n" by simp
    with Cons.IH [OF declared(2) r] show ?thesis by (simp add: update_conv')
  next
    case nil
    from Cons.IH [OF nil(3) r] show ?thesis by simp
  next
    case (embedded sub m)
    from Cons.IH [OF embedded(5) r] show ?thesis by simp
  qed
qed

lemma fields_loop_unembedded_index:
  "fields_loop fs idx st = Returns st' \<Longrightarrow> distinct (map fname fs) \<Longrightarrow>
   i < length fs \<Longrightarrow> \<not> anonymous (fs ! i) \<Longrightarrow>
   map_of (unembeddedRefs st') (fname (fs ! i)) = Some (idx + i)"
proof (induction fs arbitrary: idx st i)
  case Nil
  then show ?case by simp
next
  case (Cons g rest)
  from Cons.prems(2) have d: "distinct (map fname rest)" and ng: "fname g \<notin> fname ` set rest" by auto
  show ?case
  proof (cases i)
    case 0
    from ng have r: "\<forall>f \<in> set rest. \<not> anonymous f \<longrightarrow> fname f \<noteq> fname g"
      by (metis image_eqI)
    from Cons.prems(1) show ?thesis
    proof (cases rule: fields_loop_Cons_cases)
      case declared
      from fields_loop_unembedded_kept [OF declared(2) r] 0 show ?thesis
        by (simp add: update_conv')
    next
      case nil
      with 0 Cons.prems(4) show ?thesis by simp
    next
      case (embedded sub m)
      with 0 Cons.prems(4) show ?thesis by simp
    qed
  next
    case (Suc j)
    with Cons.prems have j: "j < length rest" "\<not> anonymous (rest ! j)" by simp_all
    from Cons.prems(1) have "map_of (unembeddedRefs st') (fname (rest ! j)) = Some (idx + 1 + j)"
      by (cases rule: fields_loop_Cons_cases) (rule Cons.IH [OF _ d j], assumption)+
    with Suc show ?thesis by simp
  qed
qed

lemma fields_loop_counted:
  "fields_loop fs idx st = Returns st' \<Longrightarrow>
   (\<And>sub m. FieldMap sub = Returns m \<Longrightarrow> distinct (map fst m)) \<Longrightarrow>
   counted (embeddedRefs st') k = counted (embeddedRefs st) k + length (filter (appears_in k) fs)"
proof (induction fs arbitrary: idx st)
  case Nil
  then show ?case by simp
next
  case (Cons f rest)
  from Cons.prems(1) show ?case
  proof (cases rule: fields_loop_Cons_cases)
    case declared
    from Cons.IH [OF declared(2) Cons.prems(2)] declared(1) show ?thesis
      by (simp add: appears_in_def)
  next
    case nil
    from Cons.IH [OF nil(3) Cons.prems(2)] nil(2) show ?thesis
      by (simp add: appears_in_def)
  next
    case (embedded sub m)
    have "distinct (map fst m)" using embedded(4) by (rule Cons.prems(2))
    from fold_merge_counted [OF this, of st k] Cons.IH [OF embedded(5) Cons.prems(2)] embedded(1-4)
    show ?thesis by (simp add: appears_in_def)
  qed
qed

lemma fields_loop_distinct:
  "fields_loop fs idx st = Returns st' \<Longrightarrow>
   distinct (map fst (results st)) \<Longrightarrow> distinct (map fst (embeddedRefs st)) \<Longrightarrow>
   distinct (map fst (results st')) \<and> distinct (map fst (embeddedRefs st'))"
proof (induction fs arbitrary: idx st)
  case Nil
  then show ?case by simp
next
  case (Cons f rest)
  from Cons.prems(1) show ?case
  proof (cases rule: fields_loop_Cons_cases)
    case declared
    from Cons.IH [OF declared(2)] Cons.prems(2,3) show ?thesis
      by (simp add: distinct_update)
  next
    case nil
    from Cons.IH [OF nil(3)] Cons.prems(2,3) show ?thesis
      by (simp add: distinct_update)
  next
    case (embedded sub m)
    from Cons.IH [OF embedded(5)] Cons.prems(2,3) show ?thesis
      by (simp add: distinct_update fold_merge_results_distinct fold_merge_embedded_distinct)
  qed
qed

lemma resolve_refs_distinct:
  "resolve_refs fs ur er res = Returns res' \<Longrightarrow> distinct (map fst res) \<Longrightarrow> distinct (map fst res')"
proof (induction er arbitrary: res)
  case Nil
  then show ?case by simp
next
  case (Cons rc others)
  obtain ref c where rc: "rc = (ref, c)" by (cases rc)
  from Cons.prems show ?case
    unfolding rc
    by (auto simp: distinct_update distinct_delete intro: Cons.IH
        split: if_splits option.splits outcome.splits)
qed

lemma resolve_refs_lookup:
  "resolve_refs fs ur er res = Returns res' \<Longrightarrow> distinct (map fst er) \<Longrightarrow>
   map_of res' n =
     (case map_of er n of
        None \<Rightarrow> map_of res n
      | Some c \<Rightarrow>
          if c \<le> 1 then map_of res n
          else (case map_of ur n of
                  None \<Rightarrow> None
                | Some i \<Rightarrow> (case Field_at fs i of Returns v \<Rightarrow> Some v | Panics p \<Rightarrow> None)))"
proof (induction er arbitrary: res)
  case Nil
  then show ?case by simp
next
  case (Cons rc others)
  obtain ref c where rc: "rc = (ref, c)" by (cases rc)
  from Cons.prems(2) rc have d: "distinct (map fst others)" and nr: "ref \<notin> fst ` set others" by auto
  from nr have none: "map_of others ref = None" by (simp add: map_of_eq_None_iff)
  show ?case
  proof (cases "c \<le> 1")
    case True
    with Cons.prems(1) rc have "resolve_refs fs ur others res = Returns res'" by simp
    from Cons.IH [OF this d] True none show ?thesis by (simp add: rc)
  next
    case False
    show ?thesis
    proof (cases "map_of ur ref")
      case None
      with Cons.prems(1) rc False have "resolve_refs fs ur others (AList.delete ref res) = Returns res'"
        by simp
      from Cons.IH [OF this d] False None none show ?thesis
        by (cases "n = ref") (simp_all add: rc delete_conv' split: option.split)
    next
      case (Some i)
      with Cons.prems(1) rc False obtain v where v: "Field_at fs i = Returns v"
        by (cases "Field_at fs i") auto
      with Cons.prems(1) rc False Some
      have "resolve_refs fs ur others (AList.update ref v res) = Returns res'" by simp
      from Cons.IH [OF this d] False Some none v show ?thesis
        by (cases "n = ref") (simp_all add: rc update_conv' split: option.split)
    qed
  qed
qed

lemma indirect_struct_not_nil:
  "indirect obj = VStruct fs \<Longrightarrow> nil_check obj = Returns False"
  by (cases obj) (auto simp: nil_check_def canBeNil_def IsNil_def split: if_splits)

lemma FieldMap_struct:
  assumes "indirect obj = VStruct fs" "FieldMap obj = Returns fm"
  obtains st where
    "fields_loop fs 0 \<lparr>embeddedRefs = [], unembeddedRefs = [], results = []\<rparr> = Returns st"
    "resolve_refs fs (unembeddedRefs st) (embeddedRefs st) (results st) = Returns fm"
proof -
  have "nil_check obj = Returns False" using assms(1) by (rule indirect_struct_not_nil)
  with assms show ?thesis
    using that by (subst (asm) FieldMap.simps) (auto simp: struct_fields_def split: outcome.splits)
qed

lemma FieldMap_distinct:
  assumes "FieldMap obj = Returns fm"
  shows "distinct (map fst fm)"
proof (cases "nil_check obj")
  case (Panics p)
  with assms show ?thesis by (subst (asm) FieldMap.simps) simp
next
  case (Returns b)
  show ?thesis
  proof (cases b)
    case True
    with assms Returns show ?thesis by (subst (asm) FieldMap.simps) auto
  next
    case False
    with assms Returns obtain fs st where
      loop: "fields_loop fs 0 \<lparr>embeddedRefs = [], unembeddedRefs = [], results = []\<rparr> = Returns st"
      and res: "resolve_refs fs (unembeddedRefs st) (embeddedRefs st) (results st) = Returns fm"
      by (subst (asm) FieldMap.simps) (auto split: outcome.splits)
    from fields_loop_distinct [OF loop] have "distinct (map fst (results st))" by simp
    with res show ?thesis by (rule resolve_refs_distinct)
  qed
qed

lemma FieldMap_declared:
  assumes "indirect obj = VStruct fs" and "distinct (map fname fs)" and "FieldMap obj = Returns fm"
    and f: "f \<in> set fs" and na: "\<not> anonymous f"
  shows "map_of fm (fname f) = Some (fvalue f, exported f)"
proof -
  from assms(1,3) obtain st where
    loop: "fields_loop fs 0 \<lparr>embeddedRefs = [], unembeddedRefs = [], results = []\<rparr> = Returns st"
    and res: "resolve_refs fs (unembeddedRefs st) (embeddedRefs st) (results st) = Returns fm"
    by (rule FieldMap_struct)
  from fields_loop_distinct [OF loop] have der: "distinct (map fst (embeddedRefs st))" by simp
  note look = resolve_refs_lookup [OF res der]
  from f obtain i where i: "i < length fs" "fs ! i = f" by (auto simp: in_set_conv_nth)
  from fields_loop_declared [OF loop assms(2) f na]
  have r: "map_of (results st) (fname f) = Some (fvalue f, exported f)" .
  from fields_loop_unembedded_index [OF loop assms(2) i(1)] i(2) na
  have u: "map_of (unembeddedRefs st) (fname f) = Some i" by simp
  from i have at: "Field_at fs i = Returns (fvalue f, exported f)" by (simp add: Field_at_def)
  show ?thesis
    by (simp add: look [of "fname f"] r u at split: option.split)
qed

lemma FieldMap_removed:
  assumes "indirect obj = VStruct fs" and "FieldMap obj = Returns fm"
    and two: "2 \<le> length (filter (appears_in k) fs)"
    and nd: "\<forall>f \<in> set fs. \<not> anonymous f \<longrightarrow> fname f \<noteq> k"
  shows "map_of fm k = None"
proof -
  from assms(1,2) obtain st where
    loop: "fields_loop fs 0 \<lparr>embeddedRefs = [], unembeddedRefs = [], results = []\<rparr> = Returns st"
    and res: "resolve_refs fs (unembeddedRefs st) (embeddedRefs st) (results st) = Returns fm"
    by (rule FieldMap_struct)
  from fields_loop_distinct [OF loop] have der: "distinct (map fst (embeddedRefs st))" by simp
  note look = resolve_refs_lookup [OF res der]
  from fields_loop_counted [OF loop FieldMap_distinct, where k = k]
  have "counted (embeddedRefs st) k = length (filter (appears_in k) fs)"
    by (simp add: counted_def)
  with two obtain c where c: "map_of (embeddedRefs st) k = Some c" "2 \<le> c"
    by (cases "map_of (embeddedRefs st) k") (auto simp: counted_def)
  from fields_loop_unembedded_kept [OF loop nd]
  have u: "map_of (unembeddedRefs st) k = None" by simp
  from c u show ?thesis by (simp add: look [of k])
qed

lemma fields_loop_embedded_returns:
  "fields_loop fs idx st = Returns st' \<Longrightarrow> e \<in> set fs \<Longrightarrow> anonymous e \<Longrightarrow>
   nil_check (fvalue e) = Returns False \<Longrightarrow>
   \<exists>sub m. Interface_of (fvalue e, exported e) = Returns sub \<and> FieldMap sub = Returns m"
proof (induction fs arbitrary: idx st)
  case Nil
  then show ?case by simp
next
  case (Cons f rest)
  show ?case
  proof (cases "e = f")
    case True
    from Cons.prems(1) show ?thesis
    proof (cases rule: fields_loop_Cons_cases)
      case declared
      with True Cons.prems(3) show ?thesis by simp
    next
      case nil
      with True Cons.prems(4) show ?thesis by simp
    next
      case (embedded sub m)
      with True show ?thesis by blast
    qed
  next
    case False
    with Cons.prems(2) have "e \<in> set rest" by simp
    from Cons.prems(1) show ?thesis
      by (cases rule: fields_loop_Cons_cases)
        (rule Cons.IH [OF _ \<open>e \<in> set rest\<close> Cons.prems(3,4)], assumption)+
  qed
qed

lemma Interface_of_indirect:
  "Interface_of (v, r) = Returns sub \<Longrightarrow> indirect v = VStruct gs \<Longrightarrow> indirect sub = VStruct gs"
  by (cases v) (auto simp: Interface_of_def split: if_splits)

lemma declares_appears_in:
  assumes "indirect obj = VStruct fs" and "FieldMap obj = Returns fm"
    and e: "e \<in> set fs" "anonymous e" and dec: "declares k (fvalue e)"
  shows "appears_in k e"
proof -
  from dec obtain gs g where gs: "indirect (fvalue e) = VStruct gs" "distinct (map fname gs)"
    and g: "g \<in> set gs" "\<not> anonymous g" "fname g = k"
    by (cases "indirect (fvalue e)") (auto simp: declares_def)
  from gs(1) have nn: "nil_check (fvalue e) = Returns False" by (rule indirect_struct_not_nil)
  from assms(1,2) obtain st where
    loop: "fields_loop fs 0 \<lparr>embeddedRefs = [], unembeddedRefs = [], results = []\<rparr> = Returns st"
    by (rule FieldMap_struct)
  from fields_loop_embedded_returns [OF loop e nn] obtain sub m where
    sub: "Interface_of (fvalue e, exported e) = Returns sub" and m: "FieldMap sub = Returns m"
    by blast
  from Interface_of_indirect [OF sub gs(1)] have "indirect sub = VStruct gs" .
  from FieldMap_declared [OF this gs(2) m g(1,2)] g(3) have "map_of m k \<noteq> None" by simp
  with e(2) nn sub m show ?thesis by (simp add: appears_in_def)
qed

lemma two_in_filter:
  assumes "a \<in> set xs" "b \<in> set xs" "a \<noteq> b" "P a" "P b"
  shows "2 \<le> length (filter P xs)"
proof -
  have "{a, b} \<subseteq> set (filter P xs)" using assms by simp
  then have "card {a, b} \<le> card (set (filter P xs))" by (intro card_mono) simp_all
  also have "\<dots> \<le> length (filter P xs)" by (rule card_length)
  finally show ?thesis using assms(3) by simp
qed

text \<open>
  Claim C3.  Let the value be (or point to) a record with distinctly named fields, on which
  \<open>FieldMap\<close> returns.  Then every field declared on the record itself, embedded ones apart,
  is bound in the map to that field's value, whatever the embedded records hold under the
  same name; and a name that appears in two or more embedded records and is the name of no
  declared field of the record is not in the map, in particular a name that two of the
  embedded records declare as a field of their own.
\<close>

theorem FieldMap_flattening:
  assumes "indirect obj = VStruct fs" and "distinct (map fname fs)" and "FieldMap obj = Returns fm"
  shows "(\<forall>f \<in> set fs. \<not> anonymous f \<longrightarrow> map_of fm (fname f) = Some (fvalue f, exported f)) \<and>
         (\<forall>k. 2 \<le> length (filter (appears_in k) fs) \<and> (\<forall>f \<in> set fs. \<not> anonymous f \<longrightarrow> fname f \<noteq> k)
               \<longrightarrow> map_of fm k = None) \<and>
         (\<forall>k e1 e2. e1 \<in> set fs \<and> e2 \<in> set fs \<and> e1 \<noteq> e2 \<and> anonymous e1 \<and> anonymous e2 \<and>
               declares k (fvalue e1) \<and> declares k (fvalue e2) \<and>
               (\<forall>f \<in> set fs. \<not> anonymous f \<longrightarrow> fname f \<noteq> k)
               \<longrightarrow> map_of fm k = None)"
proof (intro conjI ballI allI impI)
  fix f assume "f \<in> set fs" "\<not> anonymous f"
  with assms show "map_of fm (fname f) = Some (fvalue f, exported f)" by (rule FieldMap_declared)
next
  fix k
  assume "2 \<le> length (filter (appears_in k) fs) \<and> (\<forall>f \<in> set fs. \<not> anonymous f \<longrightarrow> fname f \<noteq> k)"
  with assms(1,3) show "map_of fm k = None" by (auto intro: FieldMap_removed)
next
  fix k e1 e2
  assume h: "e1 \<in> set fs \<and> e2 \<in> set fs \<and> e1 \<noteq> e2 \<and> anonymous e1 \<and> anonymous e2 \<and>
               declares k (fvalue e1) \<and> declares k (fvalue e2) \<and>
               (\<forall>f \<in> set fs. \<not> anonymous f \<longrightarrow> fname f \<noteq> k)"
  then have "appears_in k e1" "appears_in k e2"
    using declares_appears_in [OF assms(1,3)] by blast+
  with h have "2 \<le> length (filter (appears_in k) fs)" by (intro two_in_filter [of e1 _ e2]) auto
  with assms(1,3) h show "map_of fm k = None" by (auto intro: FieldMap_removed)
qed

text \<open>
  The spec's scenario: for \<open>Outer\<close> with \<open>Name\<close> and the embedded \<open>E1\<close> and \<open>E2\<close> the map has
  \<open>Name\<close>, \<open>A\<close> and \<open>B\<close> (and the embedded records themselves) and no \<open>Shared\<close>, so the terms
  \<open>name\<close>, \<open>a\<close> and \<open>b\<close> are found and \<open>shared\<close> is not; with a field \<open>Shared\<close> on \<open>Outer\<close>,
  \<open>shared\<close> is that field.
\<close>

theorem FieldMap_flattening_witness:
  "FieldMap Outer_value = Returns
     [(''Name'', VString ''n'', True), (''A'', VString ''a'', True), (''E1'', E1_value, True),
      (''B'', VString ''b'', True), (''E2'', E2_value, True)] \<and>
   EvalTerms id Outer_value [''name''] = Returns (Inr (VString ''n'')) \<and>
   EvalTerms id Outer_value [''a''] = Returns (Inr (VString ''a'')) \<and>
   EvalTerms id Outer_value [''b''] = Returns (Inr (VString ''b'')) \<and>
   EvalTerms id Outer_value [''shared'']
     = Returns (Inl (NoDefinedField Outer_value ''shared'' [''name'', ''a'', ''e1'', ''b'', ''e2''])) \<and>
   FieldMap Outer_shared_value = Returns
     [(''Name'', VString ''n'', True), (''Shared'', VString ''outer'', True), (''A'', VString ''a'', True),
      (''E1'', E1_value, True), (''B'', VString ''b'', True), (''E2'', E2_value, True)] \<and>
   EvalTerms id Outer_shared_value [''shared''] = Returns (Inr (VString ''outer''))"
proof -
  let ?fs = "[StructField ''Name'' False True (VString ''n''),
              StructField ''E1'' True True E1_value, StructField ''E2'' True True E2_value]"
  let ?fm = "[(''Name'', VString ''n'', True), (''A'', VString ''a'', True), (''E1'', E1_value, True),
      (''B'', VString ''b'', True), (''E2'', E2_value, True)]"
  let ?gs = "?fs @ [StructField ''Shared'' False True (VString ''outer'')]"
  let ?gm = "[(''Name'', VString ''n'', True), (''Shared'', VString ''outer'', True), (''A'', VString ''a'', True),
      (''E1'', E1_value, True), (''B'', VString ''b'', True), (''E2'', E2_value, True)]"
  have i1: "indirect Outer_value = VStruct ?fs" by (simp add: Outer_value_def)
  have d1: "distinct (map fname ?fs)" by simp
  have f1: "FieldMap Outer_value = Returns ?fm" by code_simp
  have two: "2 \<le> length (filter (appears_in ''Shared'') ?fs)" by code_simp
  have nd: "\<forall>f \<in> set ?fs. \<not> anonymous f \<longrightarrow> fname f \<noteq> ''Shared''" by simp
  have dec: "declares ''Shared'' E1_value" "declares ''Shared'' E2_value"
    by (simp_all add: declares_def E1_value_def E2_value_def)
  have ne: "StructField ''E1'' True True E1_value \<noteq> StructField ''E2'' True True E2_value"
    by simp
  from FieldMap_flattening [OF i1 d1 f1] two nd
  have r1: "map_of ?fm ''Name'' = Some (VString ''n'', True) \<and> map_of ?fm ''Shared'' = None"
    by simp
  from FieldMap_flattening [OF i1 d1 f1] dec ne nd
  have r3: "map_of ?fm ''Shared'' = None"
    by simp
  have i2: "indirect Outer_shared_value = VStruct ?gs" by (simp add: Outer_shared_value_def)
  have d2: "distinct (map fname ?gs)" by simp
  have f2: "FieldMap Outer_shared_value = Returns ?gm" by code_simp
  from FieldMap_flattening [OF i2 d2 f2]
  have r2: "map_of ?gm ''Shared'' = Some (VString ''outer'', True)" by simp
  have e: "EvalTerms id Outer_value [''name''] = Returns (Inr (VString ''n''))"
    "EvalTerms id Outer_value [''a''] = Returns (Inr (VString ''a''))"
    "EvalTerms id Outer_value [''b''] = Returns (Inr (VString ''b''))"
    "EvalTerms id Outer_value [''shared'']
     = Returns (Inl (NoDefinedField Outer_value ''shared'' [''name'', ''a'', ''e1'', ''b'', ''e2'']))"
    "EvalTerms id Outer_shared_value [''shared''] = Returns (Inr (VString ''outer''))"
    by code_simp+
  from r1 r2 r3 f1 f2 e show ?thesis by simp
qed

section \<open>EvalTerms: proofs\<close>











text \<open>
  Claim C8 does not hold of the code.  \<open>FieldMap\<close> does not test the kind of its argument as
  \<open>ListFields\<close> and \<open>fieldMap\<close> do: on a string it panics in \<open>NumField\<close>, and so does \<open>EvalTerms\<close>
  when a term is applied to the string that the term before it led to.  \<open>ListFields\<close> returns
  its error for every input that has a type and is not a struct, and panics on \<open>nil\<close>.
\<close>

theorem EvalTerms_panics_on_non_record:
  "EvalTerms id cfg_value [''name''] = Returns (Inr (VString ''web'')) \<and>
   FieldMap (VString ''web'') = Panics (NumFieldOfNonStruct KString) \<and>
   EvalTerms id cfg_value [''name'', ''len''] = Panics (NumFieldOfNonStruct KString) \<and>
   ListFields (AsOther None) = Panics NilDereference"
  by code_simp

lemma ListFields_non_struct:
  assumes "arg_type obj = Returns (Some t)" "TKind (strip_pointers t) \<noteq> KStruct"
  shows "ListFields obj = Returns (Inl (ElementNotAStruct (strip_pointers t)))"
  using assms by (auto simp: ListFields_def)

lemma ListFields_struct:
  assumes "arg_type obj = Returns (Some t)" "strip_pointers t = TStruct n fs"
  shows "ListFields obj = Returns (Inr (map fname fs))"
  using assms by (simp add: ListFields_def type_fields_def)

section \<open>The field map cache: proofs\<close>

text \<open>
  Claim C6 does not hold of the code.  With an empty cache the mapping of \<open>Outer\<close> has the
  keys \<open>inner\<close>, \<open>a\<close> and \<open>b\<close>.  When the mapping of \<open>Inner\<close> is computed first, the cache holds
  \<open>a\<close> for \<open>Inner\<close>; the computation for \<open>Outer\<close> then takes the cached map of \<open>Inner\<close> in
  place of its own and writes \<open>b\<close> into it, so that the mapping of \<open>Outer\<close> is \<open>a\<close> and \<open>b\<close>
  without \<open>inner\<close>, and the cache entry of \<open>Inner\<close> has changed to \<open>a\<close> and \<open>b\<close>.  In the
  other order the mapping of \<open>Inner\<close>, which alone is \<open>a\<close>, comes out as \<open>inner\<close>, \<open>a\<close> and
  \<open>b\<close>: the recursive call cached the map that \<open>Outer\<close> went on to fill.
\<close>

theorem cache_aliasing:
  "returned_mapping (fieldMap (AsType Outer_type) makeCache)
     = Some [(''inner'', ''Inner''), (''a'', ''A''), (''b'', ''B'')] \<and>
   cached_mapping (state_after makeCache (fieldMap (AsType Inner_type) makeCache)) Inner_type
     = Some [(''a'', ''A'')] \<and>
   returned_mapping
     (fieldMap (AsType Outer_type) (state_after makeCache (fieldMap (AsType Inner_type) makeCache)))
     = Some [(''a'', ''A''), (''b'', ''B'')] \<and>
   cached_mapping
     (state_after (state_after makeCache (fieldMap (AsType Inner_type) makeCache))
        (fieldMap (AsType Outer_type) (state_after makeCache (fieldMap (AsType Inner_type) makeCache))))
     Inner_type
     = Some [(''a'', ''A''), (''b'', ''B'')] \<and>
   returned_mapping (fieldMap (AsType Inner_type) makeCache) = Some [(''a'', ''A'')] \<and>
   returned_mapping
     (fieldMap (AsType Inner_type) (state_after makeCache (fieldMap (AsType Outer_type) makeCache)))
     = Some [(''inner'', ''Inner''), (''a'', ''A''), (''b'', ''B'')]"
  by code_simp


section \<open>The user.user resource: proofs\<close>

lemma Prepare_fails:
  assumes "UID p = Some MaxUint32 \<or> GID p = Some MaxUint32 \<or> (MoveDir p \<and> HomeDir p = [])"
  shows "\<exists>e. Prepare newUser p = (Inl e, p)"
  using assms by (auto simp: Prepare_def)

lemma Prepare_succeeds:
  assumes "\<not> (UID p = Some MaxUint32 \<or> GID p = Some MaxUint32 \<or> (MoveDir p \<and> HomeDir p = []))"
  shows "Prepare newUser p =
     (let p' = (if State p = [] then p\<lparr>State := StatePresent\<rparr> else p) in
      (Inr (newUser\<lparr>User_Username := Username p, User_NewUsername := NewUsername p,
            User_GroupName := GroupName p, User_Name := Name p, User_HomeDir := HomeDir p,
            User_MoveDir := MoveDir p, User_State := State p',
            User_UID := (case UID p of None \<Rightarrow> User_UID newUser | Some uid \<Rightarrow> decimal (unat uid)),
            User_GID := (case GID p of None \<Rightarrow> User_GID newUser | Some gid \<Rightarrow> decimal (unat gid))\<rparr>), p'))"
proof -
  from assms have c: "\<not> (UID p \<noteq> None \<and> the (UID p) = MaxUint32)"
    "\<not> (GID p \<noteq> None \<and> the (GID p) = MaxUint32)" "\<not> (MoveDir p \<and> HomeDir p = [])"
    by auto
  show ?thesis
    unfolding Prepare_def
    by (simp only: c if_False) (simp add: Let_def split: option.split)
qed

text \<open>
  Claim C10.  \<open>Prepare\<close> returns an error (and no task) exactly when \<open>UID\<close> is set to
  \<open>2^32 - 1\<close>, or \<open>GID\<close> is set to \<open>2^32 - 1\<close>, or \<open>MoveDir\<close> is true while \<open>HomeDir\<close> is empty, and
  it then leaves the \<open>Preparer\<close> as it was.  In every other case it returns a \<open>User\<close> whose
  fields are copied from the \<open>Preparer\<close> (a uid or gid that is set as its decimal digits, one
  that is not set as the new user has it) and whose \<open>State\<close> is the \<open>Preparer\<close>'s, or \<open>present\<close>
  when that is empty; the default is written back into the \<open>Preparer\<close>.
\<close>

theorem Prepare_result:
  "((\<exists>e. fst (Prepare newUser p) = Inl e) \<longleftrightarrow>
      (UID p = Some MaxUint32 \<or> GID p = Some MaxUint32 \<or> (MoveDir p \<and> HomeDir p = []))) \<and>
   ((\<exists>e. fst (Prepare newUser p) = Inl e) \<longrightarrow> snd (Prepare newUser p) = p) \<and>
   (\<not> (UID p = Some MaxUint32 \<or> GID p = Some MaxUint32 \<or> (MoveDir p \<and> HomeDir p = [])) \<longrightarrow>
      (\<exists>usr. fst (Prepare newUser p) = Inr usr \<and>
         User_Username usr = Username p \<and>
         User_NewUsername usr = NewUsername p \<and>
         User_GroupName usr = GroupName p \<and>
         User_Name usr = Name p \<and>
         User_HomeDir usr = HomeDir p \<and>
         User_MoveDir usr = MoveDir p \<and>
         User_State usr = (if State p = [] then ''present'' else State p) \<and>
         User_UID usr = (case UID p of None \<Rightarrow> User_UID newUser | Some uid \<Rightarrow> decimal (unat uid)) \<and>
         User_GID usr = (case GID p of None \<Rightarrow> User_GID newUser | Some gid \<Rightarrow> decimal (unat gid)) \<and>
         snd (Prepare newUser p) = p\<lparr>State := User_State usr\<rparr>))"
proof (cases "UID p = Some MaxUint32 \<or> GID p = Some MaxUint32 \<or> (MoveDir p \<and> HomeDir p = [])")
  case True
  from Prepare_fails [OF this, of newUser] obtain e where "Prepare newUser p = (Inl e, p)" ..
  with True show ?thesis by simp
next
  case False
  note ok = Prepare_succeeds [OF this, of newUser]
  have "\<not> (\<exists>e. fst (Prepare newUser p) = Inl e)"
    by (simp add: ok Let_def)
  moreover have "\<exists>usr. fst (Prepare newUser p) = Inr usr \<and>
         User_Username usr = Username p \<and>
         User_NewUsername usr = NewUsername p \<and>
         User_GroupName usr = GroupName p \<and>
         User_Name usr = Name p \<and>
         User_HomeDir usr = HomeDir p \<and>
         User_MoveDir usr = MoveDir p \<and>
         User_State usr = (if State p = [] then ''present'' else State p) \<and>
         User_UID usr = (case UID p of None \<Rightarrow> User_UID newUser | Some uid \<Rightarrow> decimal (unat uid)) \<and>
         User_GID usr = (case GID p of None \<Rightarrow> User_GID newUser | Some gid \<Rightarrow> decimal (unat gid)) \<and>
         snd (Prepare newUser p) = p\<lparr>State := User_State usr\<rparr>"
    by (simp add: ok Let_def StatePresent_def)
  ultimately show ?thesis using False by blast
qed


theorem Prepare_result_witness:
  "\<not> (UID example_preparer = Some MaxUint32 \<or> GID example_preparer = Some MaxUint32 \<or>
      (MoveDir example_preparer \<and> HomeDir example_preparer = [])) \<and>
   fst (Prepare empty_user example_preparer) =
     Inr \<lparr>User_Username = ''alice'', User_NewUsername = [], User_UID = ''1000'',
          User_GroupName = ''staff'', User_GID = [], User_Name = ''Alice'',
          User_HomeDir = ''/home/alice'', User_MoveDir = True, User_State = ''present''\<rparr> \<and>
   UID (example_preparer\<lparr>UID := Some (- 1)\<rparr>) = Some MaxUint32 \<and>
   fst (Prepare empty_user (example_preparer\<lparr>UID := Some (- 1)\<rparr>)) = Inl UidOutOfRange \<and>
   snd (Prepare empty_user (example_preparer\<lparr>UID := Some (- 1)\<rparr>)) = example_preparer\<lparr>UID := Some (- 1)\<rparr>"
proof -
  have d: "decimal 1000 = ''1000''"
    by code_simp
  have ok: "\<not> (UID example_preparer = Some MaxUint32 \<or> GID example_preparer = Some MaxUint32 \<or>
      (MoveDir example_preparer \<and> HomeDir example_preparer = []))"
    by (simp add: example_preparer_def MaxUint32_def)
  have bad: "UID (example_preparer\<lparr>UID := Some (- 1)\<rparr>) = Some MaxUint32"
    by (simp add: MaxUint32_def)
  have e: "fst (Prepare empty_user (example_preparer\<lparr>UID := Some (- 1)\<rparr>)) = Inl UidOutOfRange"
    by (simp add: Prepare_def MaxUint32_def)
  from Prepare_result [of empty_user example_preparer] ok
  obtain usr where usr: "fst (Prepare empty_user example_preparer) = Inr usr"
    "User_Username usr = Username example_preparer"
    "User_NewUsername usr = NewUsername example_preparer"
    "User_GroupName usr = GroupName example_preparer"
    "User_Name usr = Name example_preparer"
    "User_HomeDir usr = HomeDir example_preparer"
    "User_MoveDir usr = MoveDir example_preparer"
    "User_State usr = (if State example_preparer = [] then ''present'' else State example_preparer)"
    "User_UID usr = (case UID example_preparer of None \<Rightarrow> User_UID empty_user | Some uid \<Rightarrow> decimal (unat uid))"
    "User_GID usr = (case GID example_preparer of None \<Rightarrow> User_GID empty_user | Some gid \<Rightarrow> decimal (unat gid))"
    by blast
  then have "usr = \<lparr>User_Username = ''alice'', User_NewUsername = [], User_UID = ''1000'',
          User_GroupName = ''staff'', User_GID = [], User_Name = ''Alice'',
          User_HomeDir = ''/home/alice'', User_MoveDir = True, User_State = ''present''\<rparr>"
    by (cases usr) (simp add: example_preparer_def empty_user_def d)
  moreover from Prepare_result [of empty_user "example_preparer\<lparr>UID := Some (- 1)\<rparr>"] bad
  have "snd (Prepare empty_user (example_preparer\<lparr>UID := Some (- 1)\<rparr>)) = example_preparer\<lparr>UID := Some (- 1)\<rparr>"
    by blast
  ultimately show ?thesis using usr(1) ok bad e by simp
qed

end
